theory Spec2Isabelle
  imports Main "HOL-Library.Word"
begin

unbundle bit_operations_syntax

section \<open>The Win32 thread layer of the collector (win32\_threads.c)\<close>

text \<open>
  The model follows the build of win32\_threads.c for 64-bit Windows (X86\_64, no WinCE)
  with RETRY\_GET\_THREAD\_CONTEXT and PARALLEL\_MARK, with thread discovery compiled in
  (GC\_NO\_THREADS\_DISCOVERY undefined), so that \<open>GC_win32_dll_threads\<close> is a run-time flag.
  Where the file has a GC\_PTHREADS variant of a function that a property depends on, the
  variant is chosen by the parameter \<open>pthreads\<close>. Assertions (GC\_ASSERT), logging and the
  allocation lock have no effect on the state modelled here. Calls into the operating
  system are answered by parameters (oracles), one per Win32 function, so that a theorem
  for all oracles is a theorem for every behaviour of the system.
\<close>

subsection \<open>Machine types\<close>

type_synonym ptr_t = "64 word"
type_synonym word_t = "64 word"
type_synonym thread_id_t = "32 word"
type_synonym HANDLE = "64 word"
type_synonym DWORD = "32 word"

definition ADDR_LIMIT :: ptr_t where
  "ADDR_LIMIT = - 1"

text \<open>A fatal exit of the process: \<open>ABORT(msg)\<close>, or a trap on a null pointer.\<close>

datatype fatal = ABORT string | TRAP

subsection \<open>Thread records\<close>

text \<open>
  The bits of \<open>flags\<close>. Their numeric values are in private/pthread\_support.h; the file
  only sets, clears and tests them one at a time, so the byte is modelled as the set of the
  bits that are on: \<open>flags |= F\<close> is \<open>insert F\<close>, \<open>flags &= ~F\<close> is removal, \<open>flags = 0\<close> is
  the empty set.
\<close>

datatype thread_flag = FINISHED | DETACHED | DO_BLOCKING | IS_SUSPENDED

text \<open>The registers of a CONTEXT that \<open>copy_ptr_regs\<close> reads on X86\_64.\<close>

record CONTEXT =
  Rax :: word_t
  Rcx :: word_t
  Rdx :: word_t
  Rbx :: word_t
  Rbp :: word_t
  Rsi :: word_t
  Rdi :: word_t
  R8 :: word_t
  R9 :: word_t
  R10 :: word_t
  R11 :: word_t
  R12 :: word_t
  R13 :: word_t
  R14 :: word_t
  R15 :: word_t
  Rsp :: word_t

text \<open>
  \<open>struct GC_Thread_Rep\<close>, the fields this file reads or writes for the properties below.
  \<open>in_use\<close> is \<open>tm.in_use\<close> (the same storage as \<open>tm.long_in_use\<close>); the other member of
  that union, \<open>tm.next\<close>, is the order of a bucket's list. \<open>thread_id\<close> is the field \<open>id\<close>.
  A null pointer is 0.
\<close>

record GC_Thread_Rep =
  in_use :: bool
  thread_id :: thread_id_t
  handle :: HANDLE
  stack_end :: ptr_t
  last_stack_min :: ptr_t
  stack_ptr :: ptr_t
  context_sp :: ptr_t
  context_regs :: "word_t list"
  flags :: "thread_flag set"
  traced_stack_sect :: ptr_t

text \<open>\<open>KNOWN_FINISHED(p)\<close>: the FINISHED bit of the flags.\<close>

definition KNOWN_FINISHED :: "GC_Thread_Rep \<Rightarrow> bool" where
  "KNOWN_FINISHED p = (FINISHED \<in> flags p)"

subsection \<open>The collector's state\<close>

text \<open>
  What the operating system knows of the threads: the suspend count of each thread handle
  (SuspendThread adds one, ResumeThread takes one off a positive count), and the handles
  closed so far, in order.
\<close>

record os_state =
  suspend_count :: "HANDLE \<Rightarrow> nat"
  closed_handles :: "HANDLE list"

text \<open>
  The globals of the file. \<open>dll_thread_table\<close> is the array of MAX\_THREADS records;
  \<open>GC_threads\<close> is the hash table, one list per bucket, each list in the order of its
  \<open>tm.next\<close> links. \<open>GC_max_thread_index\<close> is a LONG; it only ever counts up to the index
  of a slot, so it is an integer here.
\<close>

record gc_state =
  GC_win32_dll_threads :: bool
  GC_need_to_lock :: bool
  GC_please_stop :: bool
  GC_attached_thread :: bool
  GC_in_thread_creation :: bool
  first_thread_used :: bool
  GC_max_thread_index :: int
  dll_thread_table :: "GC_Thread_Rep list"
  GC_threads :: "GC_Thread_Rep list list"
  GC_total_stacksize :: word_t
  os :: os_state

definition MAX_THREADS :: int where
  "MAX_THREADS = 512"

text \<open>\<open>GC_get_max_thread_index\<close>: the shared counter, clamped on access.\<close>

definition GC_get_max_thread_index :: "gc_state \<Rightarrow> int" where
  "GC_get_max_thread_index s =
     (let my_max = GC_max_thread_index s
      in if my_max \<ge> MAX_THREADS then MAX_THREADS - 1 else my_max)"

text \<open>
  The indices a discovery-mode loop \<open>for (i = 0; i <= my_max; i++)\<close> visits, where
  \<open>my_max = GC_get_max_thread_index()\<close>.
\<close>

definition dll_loop_indices :: "gc_state \<Rightarrow> int list" where
  "dll_loop_indices s = [0 ..  GC_get_max_thread_index s]"

subsection \<open>GC\_suspend\<close>

definition MAX_SUSPEND_THREAD_RETRIES :: nat where
  "MAX_SUSPEND_THREAD_RETRIES = 1000 * 1000"

text \<open>
  What the system answers in one round of the loop of \<open>GC_suspend\<close>, in the order of the
  calls: GetExitCodeThread reports that the thread is gone; SuspendThread fails;
  SuspendThread succeeds and GetThreadContext fails, then ResumeThread succeeds or not;
  SuspendThread and GetThreadContext both succeed, with the context read.
\<close>

datatype os_attempt =
    Thread_exited
  | Suspend_failed
  | Context_failed bool
  | Context_captured CONTEXT

text \<open>
  A transient failure of a round: SuspendThread fails, or GetThreadContext fails and the
  thread is resumed.
\<close>

definition transient :: "os_attempt \<Rightarrow> bool" where
  "transient a = (a = Suspend_failed \<or> a = Context_failed True)"

text \<open>\<open>copy_ptr_regs\<close> (X86\_64): the registers stored to \<open>regs\<close> in order, and the stack pointer.\<close>

definition copy_ptr_regs :: "CONTEXT \<Rightarrow> word_t list \<times> ptr_t" where
  "copy_ptr_regs pcontext =
     ([Rax pcontext, Rcx pcontext, Rdx pcontext, Rbx pcontext,
       Rbp pcontext, Rsi pcontext, Rdi pcontext,
       R8 pcontext, R9 pcontext, R10 pcontext, R11 pcontext,
       R12 pcontext, R13 pcontext, R14 pcontext, R15 pcontext],
      Rsp pcontext)"

text \<open>How the loop of \<open>GC_suspend\<close> ends, when it does not abort.\<close>

datatype loop_exit = Exit_thread_gone | Exit_captured CONTEXT

text \<open>
  The effect of a successful SuspendThread, ResumeThread and CloseHandle on what the
  system knows.
\<close>

definition SuspendThread :: "HANDLE \<Rightarrow> os_state \<Rightarrow> os_state" where
  "SuspendThread h st = st\<lparr>suspend_count := (suspend_count st)(h := Suc (suspend_count st h))\<rparr>"

definition ResumeThread :: "HANDLE \<Rightarrow> os_state \<Rightarrow> os_state" where
  "ResumeThread h st = st\<lparr>suspend_count := (suspend_count st)(h := suspend_count st h - 1)\<rparr>"

definition CloseHandle :: "HANDLE \<Rightarrow> os_state \<Rightarrow> os_state" where
  "CloseHandle h st = st\<lparr>closed_handles := closed_handles st @ [h]\<rparr>"

text \<open>
  The loop \<open>for (retry_cnt = 0;;)\<close> of \<open>GC_suspend\<close>, from the round \<open>retry_cnt\<close> on. The
  argument \<open>att\<close> gives the system's answers in each round and \<open>h\<close> is the thread's handle.
  A round that neither returns, breaks nor aborts ends with
  \<open>if (++retry_cnt >= MAX_SUSPEND_THREAD_RETRIES) ABORT(...)\<close>.
\<close>

function suspend_loop ::
  "(nat \<Rightarrow> os_attempt) \<Rightarrow> HANDLE \<Rightarrow> nat \<Rightarrow> os_state \<Rightarrow> fatal + (loop_exit \<times> os_state)"
where
  "suspend_loop att h retry_cnt st =
     (case att retry_cnt of
        Thread_exited \<Rightarrow> Inr (Exit_thread_gone, st)
      | Suspend_failed \<Rightarrow>
          if Suc retry_cnt \<ge> MAX_SUSPEND_THREAD_RETRIES
            then Inl (ABORT ''SuspendThread loop failed'')
          else suspend_loop att h (Suc retry_cnt) st
      | Context_captured c \<Rightarrow> Inr (Exit_captured c, SuspendThread h st)
      | Context_failed resumed \<Rightarrow>
          if \<not> resumed then Inl (ABORT ''ResumeThread failed in suspend loop'')
          else if Suc retry_cnt \<ge> MAX_SUSPEND_THREAD_RETRIES
            then Inl (ABORT ''SuspendThread loop failed'')
          else suspend_loop att h (Suc retry_cnt) (ResumeThread h (SuspendThread h st)))"
  by pat_completeness auto
termination
  by (relation "measure (\<lambda>(att, h, retry_cnt, st). MAX_SUSPEND_THREAD_RETRIES - retry_cnt)") auto

text \<open>
  What \<open>GC_suspend(t)\<close> leaves of the record \<open>*t\<close>: the record, still in its table, or the
  record handed to \<open>GC_delete_gc_thread_no_free\<close> (the caller's table decides what
  deleting means, see below).
\<close>

datatype suspend_outcome = Kept GC_Thread_Rep | Deleted GC_Thread_Rep

text \<open>
  \<open>GC_suspend(t)\<close>. A thread found gone is neutralised: with GC\_PTHREADS its \<open>stack_end\<close> is
  cleared, otherwise the record goes to \<open>GC_delete_gc_thread_no_free\<close>. A thread suspended
  with its context read gets \<open>context_regs\<close>, \<open>context_sp\<close> and the IS\_SUSPENDED bit.
\<close>

definition GC_suspend ::
  "bool \<Rightarrow> (nat \<Rightarrow> os_attempt) \<Rightarrow> GC_Thread_Rep \<Rightarrow> os_state \<Rightarrow> fatal + (suspend_outcome \<times> os_state)"
where
  "GC_suspend pthreads att t st =
     (case suspend_loop att (handle t) 0 st of
        Inl e \<Rightarrow> Inl e
      | Inr (Exit_thread_gone, st') \<Rightarrow>
          if pthreads then Inr (Kept (t\<lparr>stack_end := 0\<rparr>), st')
          else Inr (Deleted t, st')
      | Inr (Exit_captured c, st') \<Rightarrow>
          Inr (Kept (t\<lparr>context_regs := fst (copy_ptr_regs c),
                       context_sp := snd (copy_ptr_regs c),
                       flags := insert IS_SUSPENDED (flags t)\<rparr>),
               st'))"

subsection \<open>Registering a thread\<close>

text \<open>\<open>struct GC_stack_base\<close> (its \<open>reg_base\<close> is for IA64 only).\<close>

record GC_stack_base =
  mem_base :: ptr_t

text \<open>The results of \<open>GC_register_my_thread\<close> this file returns.\<close>

datatype gc_result = GC_SUCCESS | GC_DUPLICATE

text \<open>
  A pointer to a thread record: a slot of \<open>dll_thread_table\<close>, or the record at a place
  of the list of a bucket of \<open>GC_threads\<close>.
\<close>

datatype thread_ref = Dll_slot nat | Bucket_pos nat nat

definition deref :: "gc_state \<Rightarrow> thread_ref \<Rightarrow> GC_Thread_Rep" where
  "deref s r =
     (case r of
        Dll_slot i \<Rightarrow> dll_thread_table s ! i
      | Bucket_pos b j \<Rightarrow> GC_threads s ! b ! j)"

definition assign :: "thread_ref \<Rightarrow> GC_Thread_Rep \<Rightarrow> gc_state \<Rightarrow> gc_state" where
  "assign r t s =
     (case r of
        Dll_slot i \<Rightarrow> s\<lparr>dll_thread_table := (dll_thread_table s)[i := t]\<rparr>
      | Bucket_pos b j \<Rightarrow> s\<lparr>GC_threads := (GC_threads s)[b := (GC_threads s ! b)[j := t]]\<rparr>)"

text \<open>
  A record of zeroes: the static \<open>first_thread\<close> before its first use, and what
  GC\_INTERNAL\_MALLOC hands out (\<open>GC_new_thread\<close> asserts \<open>0 == result -> flags\<close>).
\<close>

definition zero_thread :: GC_Thread_Rep where
  "zero_thread =
     \<lparr>in_use = False, thread_id = 0, handle = 0, stack_end = 0, last_stack_min = 0,
      stack_ptr = 0, context_sp = 0, context_regs = replicate 15 0, flags = {},
      traced_stack_sect = 0\<rparr>"

text \<open>
  \<open>GC_new_thread(id)\<close>. THREAD\_TABLE\_INDEX is a macro of private/pthread\_support.h and is
  a parameter here; \<open>malloc_ok\<close> says whether GC\_INTERNAL\_MALLOC finds memory. The result
  is None for the null pointer.
\<close>

definition GC_new_thread ::
  "(thread_id_t \<Rightarrow> nat) \<Rightarrow> bool \<Rightarrow> thread_id_t \<Rightarrow> gc_state \<Rightarrow> thread_ref option \<times> gc_state"
where
  "GC_new_thread THREAD_TABLE_INDEX malloc_ok tid s =
     (let hv = THREAD_TABLE_INDEX tid
      in if \<not> first_thread_used s \<or> malloc_ok
         then (Some (Bucket_pos hv 0),
               s\<lparr>first_thread_used := True,
                  GC_threads := (GC_threads s)[hv := zero_thread # (GC_threads s ! hv)]\<rparr>)
         else (None, s))"

text \<open>\<open>GC_record_stack_base(me, sb)\<close>.\<close>

definition GC_record_stack_base :: "GC_Thread_Rep \<Rightarrow> GC_stack_base \<Rightarrow> fatal + GC_Thread_Rep" where
  "GC_record_stack_base me sb =
     (if mem_base sb = 0 then Inl (ABORT ''Bad stack base in GC_register_my_thread'')
      else Inr (me\<lparr>stack_end := mem_base sb\<rparr>))"

text \<open>
  The loop of \<open>GC_register_my_thread_inner\<close> that takes the first free slot with
  InterlockedExchange, from slot \<open>i\<close> on. The source aborts at \<open>i == MAX_THREADS - 1\<close>;
  counting up from 0 that is the first \<open>i\<close> with \<open>i >= MAX_THREADS - 1\<close>.
\<close>

function acquire_slot :: "GC_Thread_Rep list \<Rightarrow> nat \<Rightarrow> fatal + (nat \<times> GC_Thread_Rep list)" where
  "acquire_slot tbl i =
     (if in_use (tbl ! i)
      then (if int i \<ge> MAX_THREADS - 1 then Inl (ABORT ''Too many threads'')
            else acquire_slot tbl (Suc i))
      else Inr (i, tbl[i := (tbl ! i)\<lparr>in_use := True\<rparr>]))"
  by pat_completeness auto
termination
  by (relation "measure (\<lambda>(tbl, i). nat MAX_THREADS - i)") (auto simp: MAX_THREADS_def)

text \<open>\<open>while (i > GC_max_thread_index) InterlockedIncrement(&GC_max_thread_index);\<close>\<close>

function raise_max_thread_index :: "int \<Rightarrow> int \<Rightarrow> int" where
  "raise_max_thread_index i g = (if i > g then raise_max_thread_index i (g + 1) else g)"
  by pat_completeness auto
termination
  by (relation "measure (\<lambda>(i, g). nat (i - g))") auto

text \<open>
  \<open>GC_register_my_thread_inner(sb, id)\<close>. \<open>dup\<close> is the handle DuplicateHandle gives, None
  when it fails.
\<close>

definition GC_register_my_thread_inner ::
  "(thread_id_t \<Rightarrow> nat) \<Rightarrow> bool \<Rightarrow> HANDLE option \<Rightarrow> GC_stack_base \<Rightarrow> thread_id_t \<Rightarrow> gc_state
     \<Rightarrow> fatal + (thread_ref \<times> gc_state)"
where
  "GC_register_my_thread_inner THREAD_TABLE_INDEX malloc_ok dup sb tid s =
     (case (if GC_win32_dll_threads s
            then (case acquire_slot (dll_thread_table s) 0 of
                    Inl e \<Rightarrow> Inl e
                  | Inr (i, tbl) \<Rightarrow>
                      let g = raise_max_thread_index (int i) (GC_max_thread_index s);
                          g' = (if g \<ge> MAX_THREADS then MAX_THREADS - 1 else g)
                      in Inr (Dll_slot i, s\<lparr>dll_thread_table := tbl, GC_max_thread_index := g'\<rparr>))
            else (case GC_new_thread THREAD_TABLE_INDEX malloc_ok tid (s\<lparr>GC_in_thread_creation := True\<rparr>) of
                    (None, s1) \<Rightarrow> Inl (ABORT ''Failed to allocate memory for thread registering'')
                  | (Some me, s1) \<Rightarrow> Inr (me, s1\<lparr>GC_in_thread_creation := False\<rparr>)))
      of
        Inl e \<Rightarrow> Inl e
      | Inr (me, s1) \<Rightarrow>
          (case dup of
             None \<Rightarrow> Inl (ABORT ''DuplicateHandle failed'')
           | Some h \<Rightarrow>
               (case GC_record_stack_base
                       ((deref s1 me)\<lparr>handle := h, last_stack_min := ADDR_LIMIT\<rparr>) sb of
                  Inl e \<Rightarrow> Inl e
                | Inr t \<Rightarrow>
                    let s2 = assign me (t\<lparr>thread_id := tid\<rparr>) s1
                    in Inr (me,
                            if GC_win32_dll_threads s2 \<and> GC_please_stop s2
                            then s2\<lparr>GC_attached_thread := True\<rparr> else s2))))"

text \<open>
  A thread that attaches: what DuplicateHandle gives it, its stack base and its id.
  Threads attaching one after the other: for each, DllMain's DLL\_THREAD\_ATTACH (or the
  thread's start routine) calls \<open>GC_register_my_thread_inner\<close>.
\<close>

type_synonym attachment = "HANDLE option \<times> GC_stack_base \<times> thread_id_t"

fun attach_all :: "(thread_id_t \<Rightarrow> nat) \<Rightarrow> attachment list \<Rightarrow> gc_state \<Rightarrow> fatal + gc_state" where
  "attach_all THREAD_TABLE_INDEX [] s = Inr s"
| "attach_all THREAD_TABLE_INDEX ((dup, sb, tid) # rest) s =
     (case GC_register_my_thread_inner THREAD_TABLE_INDEX True dup sb tid s of
        Inl e \<Rightarrow> Inl e
      | Inr (me, s') \<Rightarrow> attach_all THREAD_TABLE_INDEX rest s')"

text \<open>\<open>GC_lookup_thread(id)\<close>; None is the null pointer.\<close>

definition GC_lookup_thread :: "(thread_id_t \<Rightarrow> nat) \<Rightarrow> thread_id_t \<Rightarrow> gc_state \<Rightarrow> thread_ref option" where
  "GC_lookup_thread THREAD_TABLE_INDEX tid s =
     (if GC_win32_dll_threads s
      then map_option (\<lambda>i. Dll_slot (nat i))
             (find (\<lambda>i. in_use (dll_thread_table s ! nat i)
                         \<and> thread_id (dll_thread_table s ! nat i) = tid)
                   (dll_loop_indices s))
      else (let hv = THREAD_TABLE_INDEX tid
            in map_option (Bucket_pos hv)
                 (find (\<lambda>j. thread_id (GC_threads s ! hv ! j) = tid)
                       [0 ..< length (GC_threads s ! hv)])))"

text \<open>
  \<open>GC_register_my_thread(sb)\<close>, called by the thread \<open>self_id\<close>
  (\<open>GetCurrentThreadId()\<close>). With GC\_PTHREADS a new record gets DETACHED, and a record
  found FINISHED is taken over.
\<close>

definition GC_register_my_thread ::
  "bool \<Rightarrow> (thread_id_t \<Rightarrow> nat) \<Rightarrow> bool \<Rightarrow> HANDLE option \<Rightarrow> thread_id_t \<Rightarrow> GC_stack_base \<Rightarrow> gc_state
     \<Rightarrow> fatal + (gc_result \<times> gc_state)"
where
  "GC_register_my_thread pthreads THREAD_TABLE_INDEX malloc_ok dup self_id sb s =
     (if \<not> GC_need_to_lock s
      then Inl (ABORT ''Threads explicit registering is not previously enabled'')
      else (case GC_lookup_thread THREAD_TABLE_INDEX self_id s of
              None \<Rightarrow>
                (case GC_register_my_thread_inner THREAD_TABLE_INDEX malloc_ok dup sb self_id s of
                   Inl e \<Rightarrow> Inl e
                 | Inr (me, s1) \<Rightarrow>
                     Inr (GC_SUCCESS,
                          if pthreads
                          then assign me ((deref s1 me)\<lparr>flags := insert DETACHED (flags (deref s1 me))\<rparr>) s1
                          else s1))
            | Some me \<Rightarrow>
                if pthreads \<and> KNOWN_FINISHED (deref s me)
                then (case GC_record_stack_base (deref s me) sb of
                        Inl e \<Rightarrow> Inl e
                      | Inr t \<Rightarrow> Inr (GC_SUCCESS, assign me (t\<lparr>flags := flags t - {FINISHED}\<rparr>) s))
                else Inr (GC_DUPLICATE, s)))"

text \<open>
  \<open>AO_compare_and_swap_release(&GC_attached_thread, old, new_val)\<close>: one atomic operation
  on the signal, which stores \<open>new_val\<close> and returns true when the signal is \<open>old\<close>.
\<close>

definition AO_compare_and_swap_release :: "bool \<Rightarrow> bool \<Rightarrow> gc_state \<Rightarrow> bool \<times> gc_state" where
  "AO_compare_and_swap_release old new_val s =
     (if GC_attached_thread s = old then (True, s\<lparr>GC_attached_thread := new_val\<rparr>)
      else (False, s))"

text \<open>
  \<open>GC_started_thread_while_stopped()\<close> (with AO\_HAVE\_compare\_and\_swap\_release): the
  compare-and-swap of \<open>GC_attached_thread\<close> from TRUE to FALSE is all it does to the signal.
\<close>

definition GC_started_thread_while_stopped :: "gc_state \<Rightarrow> bool \<times> gc_state" where
  "GC_started_thread_while_stopped s =
     (if GC_win32_dll_threads s
      then (case AO_compare_and_swap_release True False s of
              (True, s') \<Rightarrow> (True, s')
            | (False, s') \<Rightarrow> (False, s'))
      else (False, s))"

subsection \<open>Stopping and starting the world\<close>

text \<open>
  The discovery-mode branch of \<open>GC_delete_gc_thread_no_free(t)\<close> on the record \<open>*t\<close>, after
  its \<open>CloseHandle(t->handle)\<close>.
\<close>

definition clear_dll_slot :: "GC_Thread_Rep \<Rightarrow> GC_Thread_Rep" where
  "clear_dll_slot t = t\<lparr>stack_end := 0, thread_id := 0, flags := {}, context_sp := 0, in_use := False\<rparr>"

text \<open>
  The loop of \<open>GC_stop_world\<close> over the slots \<open>0 .. my_max\<close> of \<open>dll_thread_table\<close>, given
  as the list of these records. \<open>att h\<close> is what the system answers to \<open>GC_suspend\<close> for the
  handle \<open>h\<close>. A record that \<open>GC_suspend\<close> deletes is cleared in place.
\<close>

fun stop_dll_slots ::
  "bool \<Rightarrow> (HANDLE \<Rightarrow> nat \<Rightarrow> os_attempt) \<Rightarrow> thread_id_t \<Rightarrow> GC_Thread_Rep list \<Rightarrow> os_state
     \<Rightarrow> fatal + (GC_Thread_Rep list \<times> os_state)"
where
  "stop_dll_slots pthreads att self_id [] st = Inr ([], st)"
| "stop_dll_slots pthreads att self_id (p # ps) st =
     (if stack_end p \<noteq> 0 \<and> DO_BLOCKING \<notin> flags p \<and> thread_id p \<noteq> self_id
      then (case GC_suspend pthreads (att (handle p)) p st of
              Inl e \<Rightarrow> Inl e
            | Inr (Kept p', st') \<Rightarrow>
                (case stop_dll_slots pthreads att self_id ps st' of
                   Inl e \<Rightarrow> Inl e
                 | Inr (ps', st'') \<Rightarrow> Inr (p' # ps', st''))
            | Inr (Deleted p', st') \<Rightarrow>
                (case stop_dll_slots pthreads att self_id ps (CloseHandle (handle p') st') of
                   Inl e \<Rightarrow> Inl e
                 | Inr (ps', st'') \<Rightarrow> Inr (clear_dll_slot p' # ps', st'')))
      else (case stop_dll_slots pthreads att self_id ps st of
              Inl e \<Rightarrow> Inl e
            | Inr (ps', st') \<Rightarrow> Inr (p # ps', st')))"

text \<open>
  The loop of \<open>GC_stop_world\<close> over the list of bucket \<open>b\<close> of \<open>GC_threads\<close>. A record that
  \<open>GC_suspend\<close> deletes is unlinked by the other branch of \<open>GC_delete_gc_thread_no_free\<close>,
  which looks for it in the bucket of its id and traps on the null pointer that ends any
  other bucket; the walk goes on from the record's \<open>tm.next\<close>, which unlinking leaves.
\<close>

fun stop_bucket ::
  "bool \<Rightarrow> (thread_id_t \<Rightarrow> nat) \<Rightarrow> (HANDLE \<Rightarrow> nat \<Rightarrow> os_attempt) \<Rightarrow> thread_id_t \<Rightarrow> nat
     \<Rightarrow> GC_Thread_Rep list \<Rightarrow> os_state \<Rightarrow> fatal + (GC_Thread_Rep list \<times> os_state)"
where
  "stop_bucket pthreads THREAD_TABLE_INDEX att self_id b [] st = Inr ([], st)"
| "stop_bucket pthreads THREAD_TABLE_INDEX att self_id b (p # ps) st =
     (if stack_end p \<noteq> 0 \<and> thread_id p \<noteq> self_id
         \<and> FINISHED \<notin> flags p \<and> DO_BLOCKING \<notin> flags p
      then (case GC_suspend pthreads (att (handle p)) p st of
              Inl e \<Rightarrow> Inl e
            | Inr (Kept p', st') \<Rightarrow>
                (case stop_bucket pthreads THREAD_TABLE_INDEX att self_id b ps st' of
                   Inl e \<Rightarrow> Inl e
                 | Inr (ps', st'') \<Rightarrow> Inr (p' # ps', st''))
            | Inr (Deleted p', st') \<Rightarrow>
                if THREAD_TABLE_INDEX (thread_id p') \<noteq> b then Inl TRAP
                else stop_bucket pthreads THREAD_TABLE_INDEX att self_id b ps
                       (CloseHandle (handle p') st'))
      else (case stop_bucket pthreads THREAD_TABLE_INDEX att self_id b ps st of
              Inl e \<Rightarrow> Inl e
            | Inr (ps', st') \<Rightarrow> Inr (p # ps', st')))"

text \<open>The outer loop \<open>for (i = 0; i < THREAD_TABLE_SZ; i++)\<close>, from bucket \<open>b\<close> on.\<close>

fun stop_buckets ::
  "bool \<Rightarrow> (thread_id_t \<Rightarrow> nat) \<Rightarrow> (HANDLE \<Rightarrow> nat \<Rightarrow> os_attempt) \<Rightarrow> thread_id_t \<Rightarrow> nat
     \<Rightarrow> GC_Thread_Rep list list \<Rightarrow> os_state \<Rightarrow> fatal + (GC_Thread_Rep list list \<times> os_state)"
where
  "stop_buckets pthreads THREAD_TABLE_INDEX att self_id b [] st = Inr ([], st)"
| "stop_buckets pthreads THREAD_TABLE_INDEX att self_id b (c # cs) st =
     (case stop_bucket pthreads THREAD_TABLE_INDEX att self_id b c st of
        Inl e \<Rightarrow> Inl e
      | Inr (c', st') \<Rightarrow>
          (case stop_buckets pthreads THREAD_TABLE_INDEX att self_id (Suc b) cs st' of
             Inl e \<Rightarrow> Inl e
           | Inr (cs', st'') \<Rightarrow> Inr (c' # cs', st'')))"

text \<open>
  \<open>GC_stop_world()\<close>, called by the thread \<open>self_id\<close>. The mark lock it takes when
  \<open>GC_parallel\<close> is set, and the critical section \<open>GC_write_cs\<close>, guard no state of the model.
\<close>

definition GC_stop_world ::
  "bool \<Rightarrow> (thread_id_t \<Rightarrow> nat) \<Rightarrow> (HANDLE \<Rightarrow> nat \<Rightarrow> os_attempt) \<Rightarrow> thread_id_t \<Rightarrow> gc_state
     \<Rightarrow> fatal + gc_state"
where
  "GC_stop_world pthreads THREAD_TABLE_INDEX att self_id s =
     (let s1 = s\<lparr>GC_please_stop := True\<rparr>
      in if GC_win32_dll_threads s1
         then (let s2 = s1\<lparr>GC_attached_thread := False\<rparr>;
                   n = nat (GC_get_max_thread_index s2 + 1)
               in case stop_dll_slots pthreads att self_id (take n (dll_thread_table s2)) (os s2) of
                    Inl e \<Rightarrow> Inl e
                  | Inr (ps, st) \<Rightarrow>
                      Inr (s2\<lparr>dll_thread_table := ps @ drop n (dll_thread_table s2), os := st\<rparr>))
         else (case stop_buckets pthreads THREAD_TABLE_INDEX att self_id 0 (GC_threads s1) (os s1) of
                 Inl e \<Rightarrow> Inl e
               | Inr (cs, st) \<Rightarrow> Inr (s1\<lparr>GC_threads := cs, os := st\<rparr>)))"

text \<open>
  The body of both loops of \<open>GC_start_world\<close>, over a list of records. \<open>resumes h\<close> says
  whether ResumeThread succeeds on the handle \<open>h\<close>.
\<close>

fun start_threads ::
  "(HANDLE \<Rightarrow> bool) \<Rightarrow> GC_Thread_Rep list \<Rightarrow> os_state \<Rightarrow> fatal + (GC_Thread_Rep list \<times> os_state)"
where
  "start_threads resumes [] st = Inr ([], st)"
| "start_threads resumes (p # ps) st =
     (if IS_SUSPENDED \<in> flags p
      then (if \<not> resumes (handle p) then Inl (ABORT ''ResumeThread failed'')
            else (case start_threads resumes ps (ResumeThread (handle p) st) of
                    Inl e \<Rightarrow> Inl e
                  | Inr (ps', st') \<Rightarrow> Inr (p\<lparr>flags := flags p - {IS_SUSPENDED}\<rparr> # ps', st')))
      else (case start_threads resumes ps st of
              Inl e \<Rightarrow> Inl e
            | Inr (ps', st') \<Rightarrow> Inr (p # ps', st')))"

fun start_buckets ::
  "(HANDLE \<Rightarrow> bool) \<Rightarrow> GC_Thread_Rep list list \<Rightarrow> os_state
     \<Rightarrow> fatal + (GC_Thread_Rep list list \<times> os_state)"
where
  "start_buckets resumes [] st = Inr ([], st)"
| "start_buckets resumes (c # cs) st =
     (case start_threads resumes c st of
        Inl e \<Rightarrow> Inl e
      | Inr (c', st') \<Rightarrow>
          (case start_buckets resumes cs st' of
             Inl e \<Rightarrow> Inl e
           | Inr (cs', st'') \<Rightarrow> Inr (c' # cs', st'')))"

text \<open>\<open>GC_start_world()\<close>.\<close>

definition GC_start_world :: "(HANDLE \<Rightarrow> bool) \<Rightarrow> gc_state \<Rightarrow> fatal + gc_state" where
  "GC_start_world resumes s =
     (case (if GC_win32_dll_threads s
            then (let n = nat (GC_get_max_thread_index s + 1)
                  in case start_threads resumes (take n (dll_thread_table s)) (os s) of
                       Inl e \<Rightarrow> Inl e
                     | Inr (ps, st) \<Rightarrow>
                         Inr (s\<lparr>dll_thread_table := ps @ drop n (dll_thread_table s), os := st\<rparr>))
            else (case start_buckets resumes (GC_threads s) (os s) of
                    Inl e \<Rightarrow> Inl e
                  | Inr (cs, st) \<Rightarrow> Inr (s\<lparr>GC_threads := cs, os := st\<rparr>)))
      of
        Inl e \<Rightarrow> Inl e
      | Inr s1 \<Rightarrow> Inr (s1\<lparr>GC_please_stop := False\<rparr>))"

text \<open>
  In discovery mode threads attach without the allocation lock, also while the collector
  stops or starts the world. The loop of \<open>GC_stop_world\<close> over the slots \<open>i < n\<close> of
  \<open>dll_thread_table\<close>, where \<open>n = my_max + 1\<close>, with the threads that attach meanwhile:
  those of the first list of \<open>arriving\<close> attach before the loop looks at slot \<open>i\<close>, those of
  the next list before slot \<open>i + 1\<close>, and so on; the threads of the lists that are left
  when the loop ends attach after it.
\<close>

function stop_dll_loop ::
  "bool \<Rightarrow> (thread_id_t \<Rightarrow> nat) \<Rightarrow> (HANDLE \<Rightarrow> nat \<Rightarrow> os_attempt) \<Rightarrow> attachment list list
     \<Rightarrow> thread_id_t \<Rightarrow> nat \<Rightarrow> nat \<Rightarrow> gc_state \<Rightarrow> fatal + gc_state"
where
  "stop_dll_loop pthreads THREAD_TABLE_INDEX att arriving self_id i n s =
     (if i < n
      then (case attach_all THREAD_TABLE_INDEX (concat (take 1 arriving)) s of
              Inl e \<Rightarrow> Inl e
            | Inr s1 \<Rightarrow>
                (let p = dll_thread_table s1 ! i
                 in if stack_end p \<noteq> 0 \<and> DO_BLOCKING \<notin> flags p \<and> thread_id p \<noteq> self_id
                    then (case GC_suspend pthreads (att (handle p)) p (os s1) of
                            Inl e \<Rightarrow> Inl e
                          | Inr (Kept p', st') \<Rightarrow>
                              stop_dll_loop pthreads THREAD_TABLE_INDEX att (drop 1 arriving) self_id
                                (Suc i) n
                                (s1\<lparr>dll_thread_table := (dll_thread_table s1)[i := p'], os := st'\<rparr>)
                          | Inr (Deleted p', st') \<Rightarrow>
                              stop_dll_loop pthreads THREAD_TABLE_INDEX att (drop 1 arriving) self_id
                                (Suc i) n
                                (s1\<lparr>dll_thread_table := (dll_thread_table s1)[i := clear_dll_slot p'],
                                    os := CloseHandle (handle p') st'\<rparr>))
                    else stop_dll_loop pthreads THREAD_TABLE_INDEX att (drop 1 arriving) self_id
                           (Suc i) n s1))
      else attach_all THREAD_TABLE_INDEX (concat arriving) s)"
  by pat_completeness auto
termination
  by (relation "measure (\<lambda>(pthreads, ix, att, arriving, self_id, i, n, s). n - i)") auto

text \<open>
  \<open>GC_stop_world()\<close> with the threads that attach while it runs: those of \<open>before_reset\<close>
  after \<open>GC_please_stop = TRUE\<close> and before \<open>AO_store(&GC_attached_thread, FALSE)\<close>, those of
  \<open>in_loop\<close> after this store, during the loop and after it. Without discovery mode a thread
  registers under the allocation lock, which the collector holds: none attaches meanwhile.
\<close>

definition GC_stop_world_attaching ::
  "bool \<Rightarrow> (thread_id_t \<Rightarrow> nat) \<Rightarrow> (HANDLE \<Rightarrow> nat \<Rightarrow> os_attempt) \<Rightarrow> attachment list
     \<Rightarrow> attachment list list \<Rightarrow> thread_id_t \<Rightarrow> gc_state \<Rightarrow> fatal + gc_state"
where
  "GC_stop_world_attaching pthreads THREAD_TABLE_INDEX att before_reset in_loop self_id s =
     (let s1 = s\<lparr>GC_please_stop := True\<rparr>
      in if GC_win32_dll_threads s1
         then (case attach_all THREAD_TABLE_INDEX before_reset s1 of
                 Inl e \<Rightarrow> Inl e
               | Inr s2 \<Rightarrow>
                   (let s3 = s2\<lparr>GC_attached_thread := False\<rparr>;
                        n = nat (GC_get_max_thread_index s3 + 1)
                    in stop_dll_loop pthreads THREAD_TABLE_INDEX att in_loop self_id 0 n s3))
         else GC_stop_world pthreads THREAD_TABLE_INDEX att self_id s)"

text \<open>
  The loop of \<open>GC_start_world\<close> over the slots \<open>i < n\<close> of \<open>dll_thread_table\<close>, with the
  threads that attach meanwhile, as for \<open>stop_dll_loop\<close>.
\<close>

function start_dll_loop ::
  "(HANDLE \<Rightarrow> bool) \<Rightarrow> (thread_id_t \<Rightarrow> nat) \<Rightarrow> attachment list list \<Rightarrow> nat \<Rightarrow> nat \<Rightarrow> gc_state
     \<Rightarrow> fatal + gc_state"
where
  "start_dll_loop resumes THREAD_TABLE_INDEX arriving i n s =
     (if i < n
      then (case attach_all THREAD_TABLE_INDEX (concat (take 1 arriving)) s of
              Inl e \<Rightarrow> Inl e
            | Inr s1 \<Rightarrow>
                (let p = dll_thread_table s1 ! i
                 in if IS_SUSPENDED \<in> flags p
                    then (if \<not> resumes (handle p) then Inl (ABORT ''ResumeThread failed'')
                          else start_dll_loop resumes THREAD_TABLE_INDEX (drop 1 arriving) (Suc i) n
                                 (s1\<lparr>dll_thread_table :=
                                        (dll_thread_table s1)[i := p\<lparr>flags := flags p - {IS_SUSPENDED}\<rparr>],
                                     os := ResumeThread (handle p) (os s1)\<rparr>))
                    else start_dll_loop resumes THREAD_TABLE_INDEX (drop 1 arriving) (Suc i) n s1))
      else attach_all THREAD_TABLE_INDEX (concat arriving) s)"
  by pat_completeness auto
termination
  by (relation "measure (\<lambda>(resumes, ix, arriving, i, n, s). n - i)") auto

text \<open>
  \<open>GC_start_world()\<close> with the threads of \<open>in_loop\<close> attaching while it runs, before its
  \<open>GC_please_stop = FALSE\<close>.
\<close>

definition GC_start_world_attaching ::
  "(HANDLE \<Rightarrow> bool) \<Rightarrow> (thread_id_t \<Rightarrow> nat) \<Rightarrow> attachment list list \<Rightarrow> gc_state \<Rightarrow> fatal + gc_state"
where
  "GC_start_world_attaching resumes THREAD_TABLE_INDEX in_loop s =
     (if GC_win32_dll_threads s
      then (let n = nat (GC_get_max_thread_index s + 1)
            in case start_dll_loop resumes THREAD_TABLE_INDEX in_loop 0 n s of
                 Inl e \<Rightarrow> Inl e
               | Inr s1 \<Rightarrow> Inr (s1\<lparr>GC_please_stop := False\<rparr>))
      else GC_start_world resumes s)"

text \<open>
  The records of the registry in use: all slots of \<open>dll_thread_table\<close> in discovery mode,
  else all records of the hash table, bucket by bucket.
\<close>

definition registry :: "gc_state \<Rightarrow> GC_Thread_Rep list" where
  "registry s = (if GC_win32_dll_threads s then dll_thread_table s else concat (GC_threads s))"

text \<open>The records with the IS\_SUSPENDED bit.\<close>

definition suspended_records :: "gc_state \<Rightarrow> GC_Thread_Rep list" where
  "suspended_records s = filter (\<lambda>p. IS_SUSPENDED \<in> flags p) (registry s)"

text \<open>
  The records that \<open>GC_stop_world\<close>, called by the thread \<open>self_id\<close>, hands to \<open>GC_suspend\<close>:
  the conditions of its two loops.
\<close>

definition stop_candidates :: "thread_id_t \<Rightarrow> gc_state \<Rightarrow> GC_Thread_Rep list" where
  "stop_candidates self_id s =
     (if GC_win32_dll_threads s
      then filter (\<lambda>p. stack_end p \<noteq> 0 \<and> DO_BLOCKING \<notin> flags p \<and> thread_id p \<noteq> self_id)
             (take (nat (GC_get_max_thread_index s + 1)) (dll_thread_table s))
      else filter (\<lambda>p. stack_end p \<noteq> 0 \<and> thread_id p \<noteq> self_id
                        \<and> FINISHED \<notin> flags p \<and> DO_BLOCKING \<notin> flags p)
             (concat (GC_threads s)))"

text \<open>
  Whether the loop of \<open>GC_suspend\<close> ends because GetExitCodeThread reports the thread of
  the handle \<open>h\<close> as gone, given the system's answers \<open>att\<close> for it.
\<close>

definition found_exited :: "(nat \<Rightarrow> os_attempt) \<Rightarrow> HANDLE \<Rightarrow> bool" where
  "found_exited att h =
     (case suspend_loop att h 0 \<lparr>suspend_count = (\<lambda>h. 0), closed_handles = []\<rparr> of
        Inr (Exit_thread_gone, st) \<Rightarrow> True
      | _ \<Rightarrow> False)"

subsection \<open>Sequences of calls\<close>

text \<open>
  The calls that read or write \<open>GC_attached_thread\<close> and \<open>GC_please_stop\<close>: a thread
  attaching between two calls of the collector, \<open>GC_stop_world\<close> and \<open>GC_start_world\<close> with
  the threads that attach while they run, and the collector asking
  \<open>GC_started_thread_while_stopped\<close>. Each call carries what the system answers to it.
\<close>

datatype gc_call =
    Attach "HANDLE option" GC_stack_base thread_id_t
  | Stop_world "HANDLE \<Rightarrow> nat \<Rightarrow> os_attempt" "attachment list" "attachment list list" thread_id_t
  | Start_world "HANDLE \<Rightarrow> bool" "attachment list list"
  | Ask

text \<open>
  Running a sequence of calls, one after the other: the answers of the \<open>Ask\<close> calls in
  order and the last state, or the abort that ended the process.
\<close>

fun run_calls ::
  "bool \<Rightarrow> (thread_id_t \<Rightarrow> nat) \<Rightarrow> gc_call list \<Rightarrow> gc_state \<Rightarrow> fatal + (bool list \<times> gc_state)"
where
  "run_calls pthreads THREAD_TABLE_INDEX [] s = Inr ([], s)"
| "run_calls pthreads THREAD_TABLE_INDEX (Attach dup sb tid # cs) s =
     (case GC_register_my_thread_inner THREAD_TABLE_INDEX True dup sb tid s of
        Inl e \<Rightarrow> Inl e
      | Inr (me, s') \<Rightarrow> run_calls pthreads THREAD_TABLE_INDEX cs s')"
| "run_calls pthreads THREAD_TABLE_INDEX (Stop_world att before_reset in_loop self_id # cs) s =
     (case GC_stop_world_attaching pthreads THREAD_TABLE_INDEX att before_reset in_loop self_id s of
        Inl e \<Rightarrow> Inl e
      | Inr s' \<Rightarrow> run_calls pthreads THREAD_TABLE_INDEX cs s')"
| "run_calls pthreads THREAD_TABLE_INDEX (Start_world resumes in_loop # cs) s =
     (case GC_start_world_attaching resumes THREAD_TABLE_INDEX in_loop s of
        Inl e \<Rightarrow> Inl e
      | Inr s' \<Rightarrow> run_calls pthreads THREAD_TABLE_INDEX cs s')"
| "run_calls pthreads THREAD_TABLE_INDEX (Ask # cs) s =
     (case GC_started_thread_while_stopped s of
        (b, s') \<Rightarrow>
          (case run_calls pthreads THREAD_TABLE_INDEX cs s' of
             Inl e \<Rightarrow> Inl e
           | Inr (bs, s'') \<Rightarrow> Inr (b # bs, s'')))"

text \<open>
  The answers the specification asks for, from the sequence of calls alone: an \<open>Ask\<close> is
  answered true exactly when a thread attached while a stop was in progress since the
  last reset. A stop is in progress from the start of \<open>GC_stop_world\<close> to the end of
  \<open>GC_start_world\<close>. The signal is reset at the start of \<open>GC_stop_world\<close>, so that the
  threads that attach during and after its loop count and those that attached before its
  reset do not, and by a true answer. \<open>stopping\<close> and \<open>attached\<close> are what holds before the
  sequence.
\<close>

fun expected_answers :: "bool \<Rightarrow> bool \<Rightarrow> gc_call list \<Rightarrow> bool list" where
  "expected_answers stopping attached [] = []"
| "expected_answers stopping attached (Attach dup sb tid # cs) =
     expected_answers stopping (attached \<or> stopping) cs"
| "expected_answers stopping attached (Stop_world att before_reset in_loop self_id # cs) =
     expected_answers True (concat in_loop \<noteq> []) cs"
| "expected_answers stopping attached (Start_world resumes in_loop # cs) =
     expected_answers False (attached \<or> (stopping \<and> concat in_loop \<noteq> [])) cs"
| "expected_answers stopping attached (Ask # cs) =
     attached # expected_answers stopping False cs"

subsection \<open>Pushing the stacks\<close>

text \<open>
  The two fields of MEMORY\_BASIC\_INFORMATION the file reads, and the two protection
  bits of winnt.h it tests.
\<close>

record MEMORY_BASIC_INFORMATION =
  BaseAddress :: ptr_t
  Protect :: DWORD

definition PAGE_READWRITE :: DWORD where
  "PAGE_READWRITE = 0x04"

definition PAGE_GUARD :: DWORD where
  "PAGE_GUARD = 0x100"

text \<open>
  What a scan hands to the marker and to the log, in order: \<open>GC_push_many_regs\<close>,
  \<open>GC_push_all_stack_sections(lo, hi, traced_stack_sect)\<close>, \<open>GC_push_all_stack(lo, hi)\<close>, the
  warning of a stack pointer out of range, and the count of stacks \<open>GC_push_all_stacks\<close>
  logs.
\<close>

datatype scan_event =
    Push_many_regs "word_t list"
  | Push_all_stack_sections ptr_t ptr_t ptr_t
  | Push_all_stack ptr_t ptr_t
  | Warn_out_of_range ptr_t
  | Log_pushed_stacks nat

text \<open>
  The statics \<open>last_address\<close> and \<open>last_info\<close> that cache the last VirtualQuery, with the
  addresses given to VirtualQuery so far (\<open>queried\<close>) and the events of the scan so far.
\<close>

record scan_state =
  last_address :: ptr_t
  last_info :: MEMORY_BASIC_INFORMATION
  queried :: "ptr_t list"
  events :: "scan_event list"

text \<open>
  What a scan reads from outside: \<open>GC_approx_sp()\<close> of the calling thread, what
  GetThreadContext answers for a handle (None when it fails), the memory map that
  VirtualQuery reports, and \<open>GC_page_size\<close>.
\<close>

record scan_env =
  GC_approx_sp :: ptr_t
  GetThreadContext :: "HANDLE \<Rightarrow> CONTEXT option"
  memory_map :: "ptr_t \<Rightarrow> MEMORY_BASIC_INFORMATION"
  GC_page_size :: word_t

text \<open>\<open>VirtualQuery(a, &last_info, sizeof(last_info)); last_address = a;\<close>\<close>

definition VirtualQuery :: "scan_env \<Rightarrow> ptr_t \<Rightarrow> scan_state \<Rightarrow> scan_state" where
  "VirtualQuery env a sc =
     sc\<lparr>last_info := memory_map env a, queried := queried sc @ [a], last_address := a\<rparr>"

text \<open>\<open>(Protect & PAGE_READWRITE) && !(Protect & PAGE_GUARD)\<close>\<close>

definition stack_page :: "MEMORY_BASIC_INFORMATION \<Rightarrow> bool" where
  "stack_page info = (Protect info AND PAGE_READWRITE \<noteq> 0 \<and> Protect info AND PAGE_GUARD = 0)"

text \<open>
  The \<open>do ... while\<close> loop of \<open>GC_get_stack_min\<close>. Nothing in the code bounds it: it ends
  when the system reports a region that is no stack page, and the result is None when it
  never does.
\<close>

partial_function (option) probe_down :: "scan_env \<Rightarrow> scan_state \<Rightarrow> (ptr_t \<times> scan_state) option" where
  "probe_down env sc =
     (let bottom = BaseAddress (last_info sc);
          sc' = VirtualQuery env (bottom - 1) sc
      in if stack_page (last_info sc') then probe_down env sc' else Some (bottom, sc'))"

text \<open>\<open>GC_get_stack_min(s)\<close>\<close>

definition GC_get_stack_min :: "scan_env \<Rightarrow> ptr_t \<Rightarrow> scan_state \<Rightarrow> (ptr_t \<times> scan_state) option" where
  "GC_get_stack_min env s sc =
     probe_down env (if s \<noteq> last_address sc then VirtualQuery env s sc else sc)"

text \<open>\<open>may_be_in_stack(s)\<close>\<close>

definition may_be_in_stack :: "scan_env \<Rightarrow> ptr_t \<Rightarrow> scan_state \<Rightarrow> bool \<times> scan_state" where
  "may_be_in_stack env s sc =
     (let sc' = (if s \<noteq> last_address sc then VirtualQuery env s sc else sc)
      in (stack_page (last_info sc'), sc'))"

text \<open>
  The first part of \<open>GC_push_stack_for\<close>, for a thread other than the caller that is not
  in a blocking call: its stack pointer and the record with the registers that are pushed
  (\<open>regs\<close> is the record's \<open>context_regs\<close>). None is the \<open>return 0\<close> of a thread whose context
  cannot be read and that has no saved one.
\<close>

definition read_context_sp :: "scan_env \<Rightarrow> GC_Thread_Rep \<Rightarrow> (ptr_t \<times> GC_Thread_Rep) option" where
  "read_context_sp env thread =
     (if IS_SUSPENDED \<in> flags thread then Some (context_sp thread, thread)
      else (case GetThreadContext env (handle thread) of
              Some c \<Rightarrow> Some (snd (copy_ptr_regs c), thread\<lparr>context_regs := fst (copy_ptr_regs c)\<rparr>)
            | None \<Rightarrow>
                if context_sp thread = 0 then None else Some (context_sp thread, thread)))"

text \<open>
  The stack pointer \<open>GC_push_stack_for\<close> works with, for each kind of thread; None when
  it returns 0 without one.
\<close>

definition observed_sp :: "scan_env \<Rightarrow> thread_id_t \<Rightarrow> GC_Thread_Rep \<Rightarrow> ptr_t option" where
  "observed_sp env self_id thread =
     (if thread_id thread = self_id then Some (GC_approx_sp env)
      else if DO_BLOCKING \<in> flags thread then Some (stack_ptr thread)
      else map_option fst (read_context_sp env thread))"

text \<open>
  The middle part of \<open>GC_push_stack_for\<close>: \<open>stack_min\<close>, with the record (its
  \<open>last_stack_min\<close> is updated) and the cache. None when \<open>GC_get_stack_min\<close> does not return.
\<close>

definition find_stack_min ::
  "scan_env \<Rightarrow> bool \<Rightarrow> ptr_t \<Rightarrow> GC_Thread_Rep \<Rightarrow> scan_state \<Rightarrow> (ptr_t \<times> GC_Thread_Rep \<times> scan_state) option"
where
  "find_stack_min env is_self sp thread sc =
     (if last_stack_min thread = ADDR_LIMIT
      then (case GC_get_stack_min env
                   (if traced_stack_sect thread \<noteq> 0 then traced_stack_sect thread
                    else stack_end thread) sc of
              None \<Rightarrow> None
            | Some (stack_min, sc') \<Rightarrow> Some (stack_min, thread\<lparr>last_stack_min := stack_min\<rparr>, sc'))
      else
        (let th = (if traced_stack_sect thread \<noteq> 0 \<and> last_stack_min thread > traced_stack_sect thread
                   then thread\<lparr>last_stack_min := traced_stack_sect thread\<rparr> else thread)
         in if sp < stack_end th \<and> sp \<ge> last_stack_min th then Some (sp, th, sc)
            else (case may_be_in_stack env
                         (if is_self \<and> sp < last_stack_min th then sp else last_stack_min th) sc of
                    (True, sc1) \<Rightarrow>
                      (let stack_min = BaseAddress (last_info sc1)
                       in if sp < stack_min \<or> sp \<ge> stack_end th
                          then (case GC_get_stack_min env (last_stack_min th) sc1 of
                                  None \<Rightarrow> None
                                | Some (m, sc2) \<Rightarrow> Some (m, th\<lparr>last_stack_min := m\<rparr>, sc2))
                          else Some (stack_min, th\<lparr>last_stack_min := stack_min\<rparr>, sc1))
                  | (False, sc1) \<Rightarrow>
                      (case GC_get_stack_min env (stack_end th) sc1 of
                         None \<Rightarrow> None
                       | Some (m, sc2) \<Rightarrow> Some (m, th\<lparr>last_stack_min := m\<rparr>, sc2)))))"

text \<open>The last part of \<open>GC_push_stack_for\<close>: what is pushed, given \<open>sp\<close> and \<open>stack_min\<close>.\<close>

definition push_stack_range ::
  "scan_env \<Rightarrow> bool \<Rightarrow> ptr_t \<Rightarrow> ptr_t \<Rightarrow> GC_Thread_Rep \<Rightarrow> scan_event list"
where
  "push_stack_range env is_self sp stack_min thread =
     (if sp \<ge> stack_min \<and> sp < stack_end thread
      then [Push_all_stack_sections sp (stack_end thread) (traced_stack_sect thread)]
      else (if is_self \<or> sp \<ge> stack_end thread \<or> sp + GC_page_size env < stack_min
            then [Warn_out_of_range sp] else [])
           @ [Push_all_stack stack_min (stack_end thread)])"

text \<open>
  \<open>GC_push_stack_for(thread, self_id, pfound_me)\<close>: the word returned, the record, the flag
  \<open>*pfound_me\<close> and the scan state after the call; None when the call does not return.
\<close>

definition GC_push_stack_for ::
  "scan_env \<Rightarrow> GC_Thread_Rep \<Rightarrow> thread_id_t \<Rightarrow> bool \<Rightarrow> scan_state
     \<Rightarrow> (word_t \<times> GC_Thread_Rep \<times> bool \<times> scan_state) option"
where
  "GC_push_stack_for env thread self_id found_me sc =
     (case (if thread_id thread = self_id then Some (GC_approx_sp env, True, True, thread, sc)
            else if DO_BLOCKING \<in> flags thread then Some (stack_ptr thread, False, found_me, thread, sc)
            else (case read_context_sp env thread of
                    None \<Rightarrow> None
                  | Some (sp, th) \<Rightarrow>
                      Some (sp, False, found_me, th,
                            sc\<lparr>events := events sc @ [Push_many_regs (context_regs th)]\<rparr>)))
      of
        None \<Rightarrow> Some (0, thread, found_me, sc)
      | Some (sp, is_self, found, th, sc1) \<Rightarrow>
          (case find_stack_min env is_self sp th sc1 of
             None \<Rightarrow> None
           | Some (stack_min, th', sc2) \<Rightarrow>
               Some (stack_end th' - sp, th', found,
                     sc2\<lparr>events := events sc2 @ push_stack_range env is_self sp stack_min th'\<rparr>)))"

text \<open>
  Which records \<open>GC_push_all_stacks\<close> scans: in the table, those in use with a stack; in
  the hash table, those not FINISHED with a stack.
\<close>

definition scanned :: "bool \<Rightarrow> GC_Thread_Rep \<Rightarrow> bool" where
  "scanned dll p = ((if dll then in_use p else \<not> KNOWN_FINISHED p) \<and> stack_end p \<noteq> 0)"

text \<open>
  The body of both loops of \<open>GC_push_all_stacks\<close> over a list of records, with the locals
  \<open>nthreads\<close>, \<open>total_size\<close> and \<open>found_me\<close>.
\<close>

fun push_threads ::
  "bool \<Rightarrow> scan_env \<Rightarrow> thread_id_t \<Rightarrow> GC_Thread_Rep list \<Rightarrow> nat \<Rightarrow> word_t \<Rightarrow> bool \<Rightarrow> scan_state
     \<Rightarrow> (GC_Thread_Rep list \<times> nat \<times> word_t \<times> bool \<times> scan_state) option"
where
  "push_threads dll env self_id [] nthreads total_size found_me sc =
     Some ([], nthreads, total_size, found_me, sc)"
| "push_threads dll env self_id (p # ps) nthreads total_size found_me sc =
     (if scanned dll p
      then (case GC_push_stack_for env p self_id found_me sc of
              None \<Rightarrow> None
            | Some (sz, p', found, sc') \<Rightarrow>
                (case push_threads dll env self_id ps (Suc nthreads) (total_size + sz) found sc' of
                   None \<Rightarrow> None
                 | Some (ps', r) \<Rightarrow> Some (p' # ps', r)))
      else (case push_threads dll env self_id ps nthreads total_size found_me sc of
              None \<Rightarrow> None
            | Some (ps', r) \<Rightarrow> Some (p # ps', r)))"

fun push_buckets ::
  "scan_env \<Rightarrow> thread_id_t \<Rightarrow> GC_Thread_Rep list list \<Rightarrow> nat \<Rightarrow> word_t \<Rightarrow> bool \<Rightarrow> scan_state
     \<Rightarrow> (GC_Thread_Rep list list \<times> nat \<times> word_t \<times> bool \<times> scan_state) option"
where
  "push_buckets env self_id [] nthreads total_size found_me sc =
     Some ([], nthreads, total_size, found_me, sc)"
| "push_buckets env self_id (c # cs) nthreads total_size found_me sc =
     (case push_threads False env self_id c nthreads total_size found_me sc of
        None \<Rightarrow> None
      | Some (c', n, size_so_far, found, sc') \<Rightarrow>
          (case push_buckets env self_id cs n size_so_far found sc' of
             None \<Rightarrow> None
           | Some (cs', r) \<Rightarrow> Some (c' # cs', r)))"

text \<open>
  The loops of \<open>GC_push_all_stacks()\<close>, called by the thread \<open>self_id\<close>: the tables with
  the records as the calls of \<open>GC_push_stack_for\<close> leave them, the locals \<open>nthreads\<close>,
  \<open>total_size\<close> and \<open>found_me\<close> after the loops, and the scan state. None when a call does
  not return.
\<close>

definition push_all_loops ::
  "scan_env \<Rightarrow> thread_id_t \<Rightarrow> gc_state \<Rightarrow> scan_state
     \<Rightarrow> (gc_state \<times> nat \<times> word_t \<times> bool \<times> scan_state) option"
where
  "push_all_loops env self_id s sc =
     (if GC_win32_dll_threads s
      then (let n = nat (GC_get_max_thread_index s + 1)
            in case push_threads True env self_id (take n (dll_thread_table s)) 0 0 False sc of
                 None \<Rightarrow> None
               | Some (ps, r) \<Rightarrow>
                   Some (s\<lparr>dll_thread_table := ps @ drop n (dll_thread_table s)\<rparr>, r))
      else (case push_buckets env self_id (GC_threads s) 0 0 False sc of
              None \<Rightarrow> None
            | Some (cs, r) \<Rightarrow> Some (s\<lparr>GC_threads := cs\<rparr>, r)))"

text \<open>
  \<open>GC_push_all_stacks()\<close>, called by the thread \<open>self_id\<close>: None when it does not return,
  else the abort or the states after it.
\<close>

definition GC_push_all_stacks ::
  "scan_env \<Rightarrow> thread_id_t \<Rightarrow> gc_state \<Rightarrow> scan_state \<Rightarrow> (fatal + gc_state \<times> scan_state) option"
where
  "GC_push_all_stacks env self_id s sc =
     (case push_all_loops env self_id s sc of
        None \<Rightarrow> None
      | Some (s1, nthreads, total_size, found_me, sc1) \<Rightarrow>
          (let sc2 = sc1\<lparr>events := events sc1 @ [Log_pushed_stacks nthreads]\<rparr>
           in if \<not> found_me \<and> \<not> GC_in_thread_creation s1
              then Some (Inl (ABORT ''Collecting from unknown thread''))
              else Some (Inr (s1\<lparr>GC_total_stacksize := total_size\<rparr>, sc2))))"

text \<open>The range of addresses an event hands to the marker, if it is a push of a range.\<close>

definition pushed_range :: "scan_event \<Rightarrow> (ptr_t \<times> ptr_t) option" where
  "pushed_range e =
     (case e of
        Push_all_stack_sections lo hi sect \<Rightarrow> Some (lo, hi)
      | Push_all_stack lo hi \<Rightarrow> Some (lo, hi)
      | _ \<Rightarrow> None)"

text \<open>The records \<open>GC_push_all_stacks\<close> visits and scans, in the order of its loops.\<close>

definition scan_list :: "gc_state \<Rightarrow> GC_Thread_Rep list" where
  "scan_list s =
     (if GC_win32_dll_threads s
      then filter (scanned True) (take (nat (GC_get_max_thread_index s + 1)) (dll_thread_table s))
      else filter (scanned False) (concat (GC_threads s)))"

text \<open>
  What \<open>GC_push_stack_for\<close> returns for a record: \<open>stack_end - sp\<close> for the stack pointer
  it works with, and 0 for a thread it skips without one.
\<close>

definition stack_size_seen :: "scan_env \<Rightarrow> thread_id_t \<Rightarrow> GC_Thread_Rep \<Rightarrow> word_t" where
  "stack_size_seen env self_id p =
     (case observed_sp env self_id p of Some sp \<Rightarrow> stack_end p - sp | None \<Rightarrow> 0)"

text \<open>
  A memory map as Windows reports it, as far as the loop of \<open>GC_get_stack_min\<close> needs it to
  end: the region of a stack page starts at or below the page, and not at address 0.
\<close>

definition sane_memory :: "scan_env \<Rightarrow> bool" where
  "sane_memory env =
     (\<forall>a. stack_page (memory_map env a)
           \<longrightarrow> BaseAddress (memory_map env a) \<le> a \<and> BaseAddress (memory_map env a) \<noteq> 0)"

text \<open>
  The tables have their sizes: \<open>dll_thread_table\<close> has MAX\_THREADS slots, and
  THREAD\_TABLE\_INDEX gives an index into the THREAD\_TABLE\_SZ buckets of \<open>GC_threads\<close>.
\<close>

definition tables_sized :: "(thread_id_t \<Rightarrow> nat) \<Rightarrow> gc_state \<Rightarrow> bool" where
  "tables_sized THREAD_TABLE_INDEX s =
     (length (dll_thread_table s) = nat MAX_THREADS
      \<and> (\<forall>tid. THREAD_TABLE_INDEX tid < length (GC_threads s)))"

subsection \<open>Parallel markers\<close>

definition MAX_MARKERS :: nat where
  "MAX_MARKERS = 16"

text \<open>
  The globals of the marker pool. \<open>GC_parallel\<close> is the same variable as \<open>GC_markers_m1\<close>
  (the file writes \<open>GC_parallel = FALSE; /* or GC_markers_m1 = 0 */\<close>), read as a truth value.
  \<open>closed_events\<close> lists the handles given to CloseHandle, in order.
\<close>

record marker_pool =
  required_markers_cnt :: "32 word"
  available_markers_m1 :: int
  GC_markers_m1 :: int
  GC_marker_cv :: "HANDLE list"
  marker_last_stack_min :: "ptr_t list"
  mark_cv :: HANDLE
  builder_cv :: HANDLE
  mark_mutex_event :: HANDLE
  closed_events :: "HANDLE list"

definition GC_parallel :: "marker_pool \<Rightarrow> bool" where
  "GC_parallel m = (GC_markers_m1 m \<noteq> 0)"

text \<open>\<open>GC_set_markers_count(markers)\<close>; the argument is an \<open>unsigned\<close>.\<close>

definition GC_set_markers_count :: "32 word \<Rightarrow> marker_pool \<Rightarrow> marker_pool" where
  "GC_set_markers_count markers m =
     m\<lparr>required_markers_cnt :=
         (if markers < of_nat MAX_MARKERS then markers else of_nat MAX_MARKERS)\<rparr>"

text \<open>
  The first loop of \<open>GC_start_mark_threads_inner\<close> (Win32 events), from \<open>i\<close> on:
  \<open>GC_marker_cv[i] = CreateEvent(...)\<close>. \<open>create_event i\<close> is the handle CreateEvent gives
  for helper \<open>i\<close>, 0 when it fails.
\<close>

function create_marker_events :: "(nat \<Rightarrow> HANDLE) \<Rightarrow> nat \<Rightarrow> marker_pool \<Rightarrow> fatal + marker_pool" where
  "create_marker_events create_event i m =
     (if int i < GC_markers_m1 m
      then (if create_event i = 0 then Inl (ABORT ''CreateEvent failed'')
            else create_marker_events create_event (Suc i)
                   (m\<lparr>GC_marker_cv := (GC_marker_cv m)[i := create_event i]\<rparr>))
      else Inr m)"
  by pat_completeness auto
termination
  by (relation "measure (\<lambda>(create_event, i, m). nat (GC_markers_m1 m) - i)") auto

text \<open>
  The second loop, from \<open>i\<close> on: the helper threads are started one by one, and the loop
  breaks at the first that does not start. \<open>begin_thread i\<close> says whether
  \<open>_beginthreadex\<close> starts helper \<open>i\<close>. The result is the \<open>i\<close> the loop ends with.
\<close>

function start_marker_threads :: "(nat \<Rightarrow> bool) \<Rightarrow> nat \<Rightarrow> marker_pool \<Rightarrow> nat \<times> marker_pool" where
  "start_marker_threads begin_thread i m =
     (if int i < GC_markers_m1 m
      then (let m1 = m\<lparr>marker_last_stack_min := (marker_last_stack_min m)[i := ADDR_LIMIT]\<rparr>
            in if begin_thread i then start_marker_threads begin_thread (Suc i) m1
               else (i, m1))
      else (i, m))"
  by pat_completeness auto
termination
  by (relation "measure (\<lambda>(begin_thread, i, m). nat (GC_markers_m1 m) - i)") auto

text \<open>\<open>while (GC_markers_m1 > i) { GC_markers_m1--; CloseHandle(GC_marker_cv[GC_markers_m1]); }\<close>\<close>

function release_unused_events :: "nat \<Rightarrow> marker_pool \<Rightarrow> marker_pool" where
  "release_unused_events i m =
     (if GC_markers_m1 m > int i
      then (let m1 = m\<lparr>GC_markers_m1 := GC_markers_m1 m - 1\<rparr>
            in release_unused_events i
                 (m1\<lparr>closed_events := closed_events m1 @ [GC_marker_cv m1 ! nat (GC_markers_m1 m1)]\<rparr>))
      else m)"
  by pat_completeness auto
termination
  by (relation "measure (\<lambda>(i, m). nat (GC_markers_m1 m - int i))") auto

text \<open>
  \<open>GC_start_mark_threads_inner()\<close>, the variant with Win32 events.
  \<open>GC_wait_for_gc_completion\<close> and \<open>GC_wait_for_markers_init\<close> wait for other threads and
  write none of the pool's globals.
\<close>

definition GC_start_mark_threads_inner ::
  "(nat \<Rightarrow> HANDLE) \<Rightarrow> (nat \<Rightarrow> bool) \<Rightarrow> marker_pool \<Rightarrow> fatal + marker_pool"
where
  "GC_start_mark_threads_inner create_event begin_thread m =
     (if available_markers_m1 m \<le> 0 \<or> GC_parallel m then Inr m
      else (case create_marker_events create_event 0 (m\<lparr>GC_markers_m1 := available_markers_m1 m\<rparr>) of
              Inl e \<Rightarrow> Inl e
            | Inr m1 \<Rightarrow>
                (case start_marker_threads begin_thread 0 m1 of
                   (i, m2) \<Rightarrow>
                     (let m3 = release_unused_events i m2
                      in Inr (if i = 0
                              then m3\<lparr>closed_events := closed_events m3
                                         @ [mark_cv m3, builder_cv m3, mark_mutex_event m3]\<rparr>
                              else m3)))))"

text \<open>
  The loop of the GC\_PTHREADS\_PARAMARK variant, from \<open>i\<close> on; \<open>pthread_create_ok i\<close> says
  whether \<open>pthread_create\<close> starts helper \<open>i\<close>.
\<close>

function create_marker_pthreads :: "(nat \<Rightarrow> bool) \<Rightarrow> nat \<Rightarrow> marker_pool \<Rightarrow> marker_pool" where
  "create_marker_pthreads pthread_create_ok i m =
     (if int i < available_markers_m1 m
      then (let m1 = m\<lparr>marker_last_stack_min := (marker_last_stack_min m)[i := ADDR_LIMIT]\<rparr>
            in if \<not> pthread_create_ok i then m1\<lparr>GC_markers_m1 := int i\<rparr>
               else create_marker_pthreads pthread_create_ok (Suc i) m1)
      else m)"
  by pat_completeness auto
termination
  by (relation "measure (\<lambda>(pthread_create_ok, i, m). nat (available_markers_m1 m) - i)") auto

text \<open>
  \<open>GC_start_mark_threads_inner()\<close>, the GC\_PTHREADS\_PARAMARK variant. \<open>attr_ok\<close> says
  whether \<open>pthread_attr_init\<close>, \<open>pthread_attr_setdetachstate\<close> and \<open>sigfillset\<close> succeed (in
  this order), \<open>sigmask_ok\<close> whether the first \<open>pthread_sigmask\<close> does.
\<close>

definition GC_start_mark_threads_inner_pthreads ::
  "bool \<times> bool \<times> bool \<Rightarrow> bool \<Rightarrow> (nat \<Rightarrow> bool) \<Rightarrow> marker_pool \<Rightarrow> fatal + marker_pool"
where
  "GC_start_mark_threads_inner_pthreads attr_ok sigmask_ok pthread_create_ok m =
     (if available_markers_m1 m \<le> 0 \<or> GC_parallel m then Inr m
      else if \<not> fst attr_ok then Inl (ABORT ''pthread_attr_init failed'')
      else if \<not> fst (snd attr_ok) then Inl (ABORT ''pthread_attr_setdetachstate failed'')
      else if \<not> snd (snd attr_ok) then Inl (ABORT ''sigfillset failed'')
      else if \<not> sigmask_ok then Inr (m\<lparr>GC_markers_m1 := 0\<rparr>)
      else Inr (create_marker_pthreads pthread_create_ok 0
                  (m\<lparr>GC_markers_m1 := available_markers_m1 m\<rparr>)))"

subsection \<open>Start-up and example values\<close>

text \<open>
  The statics as the file initialises them, for a table of \<open>nbuckets\<close> buckets
  (THREAD\_TABLE\_SZ); \<open>dll\<close> is \<open>GC_win32_dll_threads\<close>, which \<open>GC_use_threads_discovery\<close> sets
  before the collector starts.
\<close>

definition initial_state :: "bool \<Rightarrow> nat \<Rightarrow> gc_state" where
  "initial_state dll nbuckets =
     \<lparr>GC_win32_dll_threads = dll, GC_need_to_lock = False, GC_please_stop = False,
      GC_attached_thread = False, GC_in_thread_creation = False, first_thread_used = False,
      GC_max_thread_index = 0, dll_thread_table = replicate (nat MAX_THREADS) zero_thread,
      GC_threads = replicate nbuckets [], GC_total_stacksize = 0,
      os = \<lparr>suspend_count = (\<lambda>h. 0), closed_handles = []\<rparr>\<rparr>"

text \<open>
  The last step of \<open>GC_thr_init\<close>: the initial thread is registered with
  \<open>GC_register_my_thread_inner(&sb, main_thread_id)\<close>. \<open>GC_need_to_lock\<close> stays as it is.
\<close>

definition GC_thr_init ::
  "(thread_id_t \<Rightarrow> nat) \<Rightarrow> HANDLE option \<Rightarrow> GC_stack_base \<Rightarrow> thread_id_t \<Rightarrow> gc_state \<Rightarrow> fatal + gc_state"
where
  "GC_thr_init THREAD_TABLE_INDEX dup sb main_thread_id s =
     (case GC_register_my_thread_inner THREAD_TABLE_INDEX True dup sb main_thread_id s of
        Inl e \<Rightarrow> Inl e
      | Inr (me, s') \<Rightarrow> Inr s')"

text \<open>Values for the examples: a hash into four buckets, a context, answers of the system.\<close>

definition example_index :: "thread_id_t \<Rightarrow> nat" where
  "example_index tid = unat tid mod 4"

definition zero_context :: CONTEXT where
  "zero_context = \<lparr>Rax = 0, Rcx = 0, Rdx = 0, Rbx = 0, Rbp = 0, Rsi = 0, Rdi = 0, R8 = 0, R9 = 0,
     R10 = 0, R11 = 0, R12 = 0, R13 = 0, R14 = 0, R15 = 0, Rsp = 0\<rparr>"

text \<open>The state after start-up with the main thread 1 registered (handle 11, stack base 0x8000).\<close>

definition main_registered :: "bool \<Rightarrow> gc_state" where
  "main_registered dll =
     (case GC_thr_init example_index (Some 11) \<lparr>mem_base = 0x8000\<rparr> 1 (initial_state dll 4) of
        Inr s \<Rightarrow> s | Inl e \<Rightarrow> initial_state dll 4)"

text \<open>The state after a second thread, 2, registered too (handle 12, stack base 0x4FF0).\<close>

definition two_threads :: "bool \<Rightarrow> gc_state" where
  "two_threads dll =
     (case GC_register_my_thread_inner example_index True (Some 12) \<lparr>mem_base = 0x4FF0\<rparr> 2
             (main_registered dll) of
        Inr (me, s) \<Rightarrow> s | Inl e \<Rightarrow> main_registered dll)"

text \<open>
  A context whose registers all differ, and a system that lets a thread be suspended with
  this context read at the third try.
\<close>

definition numbered_context :: CONTEXT where
  "numbered_context = \<lparr>Rax = 1, Rcx = 2, Rdx = 3, Rbx = 4, Rbp = 5, Rsi = 6, Rdi = 7, R8 = 8,
     R9 = 9, R10 = 10, R11 = 11, R12 = 12, R13 = 13, R14 = 14, R15 = 15, Rsp = 0x7000\<rparr>"

definition stale_attempts :: "HANDLE \<Rightarrow> nat \<Rightarrow> os_attempt" where
  "stale_attempts h k =
     (if k < 2 then Context_failed True else Context_captured numbered_context)"

text \<open>A system that lets every thread be suspended at once, with the stack pointer \<open>sp\<close>.\<close>

definition captured_at :: "ptr_t \<Rightarrow> HANDLE \<Rightarrow> nat \<Rightarrow> os_attempt" where
  "captured_at sp h k = Context_captured (zero_context\<lparr>Rsp := sp\<rparr>)"

text \<open>A marker pool after \<open>GC_thr_init\<close> found three markers to use, none started yet.\<close>

definition example_pool :: marker_pool where
  "example_pool =
     \<lparr>required_markers_cnt = 0, available_markers_m1 = 2, GC_markers_m1 = 0,
      GC_marker_cv = [0, 0, 0, 0, 0, 0, 0, 0, 0, 0, 0, 0, 0, 0, 0],
      marker_last_stack_min = [0, 0, 0, 0, 0, 0, 0, 0, 0, 0, 0, 0, 0, 0, 0],
      mark_cv = 101, builder_cv = 102, mark_mutex_event = 103, closed_events = []\<rparr>"

text \<open>
  A memory map with one stack: pages 0x3000 .. 0x4FFF readable and writable, a guard page
  at 0x2000 .. 0x2FFF below them, nothing else mapped. A scan environment over it, the
  statics of the cache before the first query, and a suspended thread 2 whose stack ends
  at 0x4FF0, with its saved stack pointer and its cached stack minimum.
\<close>

definition example_memory :: "ptr_t \<Rightarrow> MEMORY_BASIC_INFORMATION" where
  "example_memory a =
     (if 0x3000 \<le> a \<and> a < 0x5000 then \<lparr>BaseAddress = 0x3000, Protect = PAGE_READWRITE\<rparr>
      else if 0x2000 \<le> a \<and> a < 0x3000
        then \<lparr>BaseAddress = 0x2000, Protect = PAGE_READWRITE OR PAGE_GUARD\<rparr>
      else \<lparr>BaseAddress = (if a < 0x2000 then 0 else 0x5000), Protect = 0\<rparr>)"

definition example_env :: scan_env where
  "example_env = \<lparr>GC_approx_sp = 0x4F00, GetThreadContext = (\<lambda>h. None),
                   memory_map = example_memory, GC_page_size = 0x1000\<rparr>"

definition initial_scan_state :: scan_state where
  "initial_scan_state =
     \<lparr>last_address = 0, last_info = \<lparr>BaseAddress = 0, Protect = 0\<rparr>, queried = [], events = []\<rparr>"

definition suspended_thread :: "ptr_t \<Rightarrow> ptr_t \<Rightarrow> GC_Thread_Rep" where
  "suspended_thread sp last_min =
     zero_thread\<lparr>in_use := True, thread_id := 2, handle := 12, stack_end := 0x4FF0,
                 last_stack_min := last_min, context_sp := sp, flags := {IS_SUSPENDED}\<rparr>"

text \<open>
  A memory map with two separate ranges of readable and writable pages, 0x1000 .. 0x1FFF
  and 0x3000 .. 0x4FFF, and nothing mapped between them; a scan environment over it in
  which the caller's stack pointer is in the lower range; and the record of the calling
  thread 1, whose registered stack ends at 0x4FF0 in the upper range.
\<close>

definition split_memory :: "ptr_t \<Rightarrow> MEMORY_BASIC_INFORMATION" where
  "split_memory a =
     (if 0x3000 \<le> a \<and> a < 0x5000 then \<lparr>BaseAddress = 0x3000, Protect = PAGE_READWRITE\<rparr>
      else if 0x1000 \<le> a \<and> a < 0x2000 then \<lparr>BaseAddress = 0x1000, Protect = PAGE_READWRITE\<rparr>
      else \<lparr>BaseAddress = (if a < 0x1000 then 0 else if a < 0x3000 then 0x2000 else 0x5000),
            Protect = 0\<rparr>)"

definition split_env :: scan_env where
  "split_env = \<lparr>GC_approx_sp = 0x1800, GetThreadContext = (\<lambda>h. None),
                 memory_map = split_memory, GC_page_size = 0x1000\<rparr>"

definition running_thread :: "ptr_t \<Rightarrow> GC_Thread_Rep" where
  "running_thread last_min =
     zero_thread\<lparr>in_use := True, thread_id := 1, handle := 11, stack_end := 0x4FF0,
                 last_stack_min := last_min\<rparr>"

definition one_finished :: gc_state where
  "one_finished =
     (initial_state False 4)
       \<lparr>first_thread_used := True,
        GC_threads := [[], [zero_thread\<lparr>handle := 11, last_stack_min := ADDR_LIMIT,
                                        stack_end := 0x8000, thread_id := 1\<rparr>],
                       [zero_thread\<lparr>handle := 12, last_stack_min := ADDR_LIMIT,
                                    stack_end := 0x4FF0, thread_id := 2,
                                    context_sp := 0x4000, flags := {FINISHED}\<rparr>], []]\<rparr>"


section \<open>Properties\<close>

subsection \<open>Running the loops\<close>

declare suspend_loop.simps [simp del]
declare acquire_slot.simps [simp del]
declare raise_max_thread_index.simps [simp del]
declare create_marker_events.simps [simp del]
declare start_marker_threads.simps [simp del]
declare release_unused_events.simps [simp del]
declare create_marker_pthreads.simps [simp del]
declare stop_dll_loop.simps [simp del]
declare start_dll_loop.simps [simp del]

lemma table_unfold:
  "replicate 512 z = z # z # z # replicate 509 z"
proof -
  have "replicate (Suc (Suc (Suc 509))) z = z # z # z # replicate 509 z"
    by (simp only: replicate.simps)
  moreover have "Suc (Suc (Suc 509)) = 512" by simp
  ultimately show ?thesis by (simp only:)
qed

lemma buckets_unfold: "replicate 4 z = [z, z, z, z]"
proof -
  have "replicate (Suc (Suc (Suc (Suc 0)))) z = [z, z, z, z]"
    by (simp only: replicate.simps)
  moreover have "Suc (Suc (Suc (Suc 0))) = 4" by simp
  ultimately show ?thesis by (simp only:)
qed

lemma regs_unfold:
  "replicate 15 z = [z, z, z, z, z, z, z, z, z, z, z, z, z, z, z]"
proof -
  have "replicate (Suc (Suc (Suc (Suc (Suc (Suc (Suc (Suc (Suc (Suc (Suc (Suc (Suc (Suc (Suc 0)))))))))))))))
          z = [z, z, z, z, z, z, z, z, z, z, z, z, z, z, z]"
    by (simp only: replicate.simps)
  moreover have "Suc (Suc (Suc (Suc (Suc (Suc (Suc (Suc (Suc (Suc (Suc (Suc (Suc (Suc (Suc 0))))))))))))))
          = 15" by simp
  ultimately show ?thesis by (simp only:)
qed

lemma acquire_slot_free:
  "\<not> in_use (tbl ! i) \<Longrightarrow> acquire_slot tbl i = Inr (i, tbl[i := (tbl ! i)\<lparr>in_use := True\<rparr>])"
  by (simp add: acquire_slot.simps[of tbl i])

lemma acquire_slot_busy:
  "in_use (tbl ! i) \<Longrightarrow> int i < MAX_THREADS - 1 \<Longrightarrow> acquire_slot tbl i = acquire_slot tbl (Suc i)"
  by (simp add: acquire_slot.simps[of tbl i])

lemma raise_max_thread_index_max: "raise_max_thread_index i g = max i g"
proof (induction i g rule: raise_max_thread_index.induct)
  case (1 i g)
  then show ?case by (simp add: raise_max_thread_index.simps[of i g])
qed

lemma resume_suspend [simp]: "ResumeThread h (SuspendThread h st) = st"
  by (simp add: ResumeThread_def SuspendThread_def)

lemma suspend_loop_exited:
  "att r = Thread_exited \<Longrightarrow> suspend_loop att h r st = Inr (Exit_thread_gone, st)"
  by (simp add: suspend_loop.simps[of att h r st])

lemma suspend_loop_captured:
  "att r = Context_captured c \<Longrightarrow> suspend_loop att h r st = Inr (Exit_captured c, SuspendThread h st)"
  by (simp add: suspend_loop.simps[of att h r st])

lemma suspend_loop_retry:
  "transient (att r) \<Longrightarrow> Suc r < MAX_SUSPEND_THREAD_RETRIES
     \<Longrightarrow> suspend_loop att h r st = suspend_loop att h (Suc r) st"
  by (auto simp: transient_def suspend_loop.simps[of att h r st])

lemma suspend_loop_exhausted:
  "transient (att r) \<Longrightarrow> Suc r \<ge> MAX_SUSPEND_THREAD_RETRIES
     \<Longrightarrow> suspend_loop att h r st = Inl (ABORT ''SuspendThread loop failed'')"
  by (auto simp: transient_def suspend_loop.simps[of att h r st])

lemma suspend_loop_all_fail:
  assumes "\<forall>k. r \<le> k \<and> k < MAX_SUSPEND_THREAD_RETRIES \<longrightarrow> transient (att k)"
    and "r < MAX_SUSPEND_THREAD_RETRIES"
  shows "suspend_loop att h r st = Inl (ABORT ''SuspendThread loop failed'')"
  using assms
proof (induction "MAX_SUSPEND_THREAD_RETRIES - r" arbitrary: r)
  case 0
  then show ?case by simp
next
  case (Suc n)
  from Suc.prems have tr: "transient (att r)" by simp
  show ?case
  proof (cases "Suc r \<ge> MAX_SUSPEND_THREAD_RETRIES")
    case True
    with tr show ?thesis by (rule suspend_loop_exhausted)
  next
    case False
    then have lt: "Suc r < MAX_SUSPEND_THREAD_RETRIES" by simp
    from Suc.hyps(2) have "n = MAX_SUSPEND_THREAD_RETRIES - Suc r" by simp
    moreover from Suc.prems have "\<forall>k. Suc r \<le> k \<and> k < MAX_SUSPEND_THREAD_RETRIES \<longrightarrow> transient (att k)"
      by simp
    ultimately have "suspend_loop att h (Suc r) st = Inl (ABORT ''SuspendThread loop failed'')"
      using lt by (rule Suc.hyps(1))
    with tr lt show ?thesis by (simp add: suspend_loop_retry)
  qed
qed

lemma suspend_loop_after_retries:
  assumes "\<forall>j. r \<le> j \<and> j < k \<longrightarrow> transient (att j)"
    and "r \<le> k" and "k < MAX_SUSPEND_THREAD_RETRIES"
  shows "suspend_loop att h r st = suspend_loop att h k st"
  using assms
proof (induction "k - r" arbitrary: r)
  case 0
  then show ?case by simp
next
  case (Suc n)
  from Suc.hyps(2) Suc.prems have lt: "r < k" by simp
  with Suc.prems have tr: "transient (att r)" by simp
  from lt Suc.prems have b: "Suc r < MAX_SUSPEND_THREAD_RETRIES" by simp
  from Suc.hyps(2) have "n = k - Suc r" by simp
  moreover from Suc.prems have "\<forall>j. Suc r \<le> j \<and> j < k \<longrightarrow> transient (att j)" by simp
  moreover from lt have "Suc r \<le> k" by simp
  ultimately have "suspend_loop att h (Suc r) st = suspend_loop att h k st"
    using Suc.prems(3) by (rule Suc.hyps(1))
  with tr b show ?case by (simp add: suspend_loop_retry)
qed

lemma suspend_loop_agree:
  assumes "\<forall>k. r \<le> k \<and> k < MAX_SUSPEND_THREAD_RETRIES \<longrightarrow> att k = att' k"
    and "r < MAX_SUSPEND_THREAD_RETRIES"
  shows "suspend_loop att h r st = suspend_loop att' h r st"
  using assms
proof (induction "MAX_SUSPEND_THREAD_RETRIES - r" arbitrary: r st)
  case 0
  then show ?case by simp
next
  case (Suc n)
  from Suc.prems have same: "att r = att' r" by simp
  show ?case
  proof (cases "Suc r \<ge> MAX_SUSPEND_THREAD_RETRIES")
    case True
    with same show ?thesis
      by (simp add: suspend_loop.simps[of att h r st] suspend_loop.simps[of att' h r st])
  next
    case False
    then have lt: "Suc r < MAX_SUSPEND_THREAD_RETRIES" by simp
    have n: "n = MAX_SUSPEND_THREAD_RETRIES - Suc r" using Suc.hyps(2) by simp
    have rest: "\<forall>k. Suc r \<le> k \<and> k < MAX_SUSPEND_THREAD_RETRIES \<longrightarrow> att k = att' k"
      using Suc.prems by simp
    have ih: "suspend_loop att h (Suc r) st' = suspend_loop att' h (Suc r) st'" for st'
      using n rest lt by (rule Suc.hyps(1))
    from same False ih show ?thesis
      by (simp add: suspend_loop.simps[of att h r st] suspend_loop.simps[of att' h r st]
          split: os_attempt.splits)
  qed
qed

lemma create_marker_events_ok:
  assumes "\<forall>j. i \<le> j \<and> int j < GC_markers_m1 m \<longrightarrow> ce j \<noteq> 0"
  shows "\<exists>cv. create_marker_events ce i m = Inr (m\<lparr>GC_marker_cv := cv\<rparr>)
            \<and> length cv = length (GC_marker_cv m)
            \<and> (\<forall>j < length cv. cv ! j = (if i \<le> j \<and> int j < GC_markers_m1 m then ce j else GC_marker_cv m ! j))"
  using assms
proof (induction ce i m rule: create_marker_events.induct)
  case (1 ce i m)
  show ?case
  proof (cases "int i < GC_markers_m1 m")
    case False
    then have "create_marker_events ce i m = Inr (m\<lparr>GC_marker_cv := GC_marker_cv m\<rparr>)"
      by (simp add: create_marker_events.simps[of ce i m])
    moreover from False have "\<forall>j < length (GC_marker_cv m). GC_marker_cv m ! j = (if i \<le> j \<and> int j < GC_markers_m1 m then ce j else GC_marker_cv m ! j)"
      by auto
    ultimately show ?thesis by blast
  next
    case True
    with "1.prems" have nz: "ce i \<noteq> 0" by auto
    let ?m1 = "m\<lparr>GC_marker_cv := (GC_marker_cv m)[i := ce i]\<rparr>"
    from "1.prems" have "\<forall>j. Suc i \<le> j \<and> int j < GC_markers_m1 ?m1 \<longrightarrow> ce j \<noteq> 0" by auto
    from "1.IH"[OF True nz this] obtain cv where
      r: "create_marker_events ce (Suc i) ?m1 = Inr (?m1\<lparr>GC_marker_cv := cv\<rparr>)"
      and l: "length cv = length (GC_marker_cv ?m1)"
      and c: "\<forall>j < length cv. cv ! j = (if Suc i \<le> j \<and> int j < GC_markers_m1 ?m1 then ce j else GC_marker_cv ?m1 ! j)"
      by blast
    from True nz r have "create_marker_events ce i m = Inr (m\<lparr>GC_marker_cv := cv\<rparr>)"
      by (simp add: create_marker_events.simps[of ce i m])
    moreover from l have "length cv = length (GC_marker_cv m)" by simp
    moreover have "\<forall>j < length cv. cv ! j = (if i \<le> j \<and> int j < GC_markers_m1 m then ce j else GC_marker_cv m ! j)"
    proof (intro allI impI)
      fix j assume j: "j < length cv"
      show "cv ! j = (if i \<le> j \<and> int j < GC_markers_m1 m then ce j else GC_marker_cv m ! j)"
      proof (cases "j = i")
        case True
        with c j l \<open>int i < GC_markers_m1 m\<close> show ?thesis by simp
      next
        case False
        with c j l show ?thesis by (auto simp: nth_list_update)
      qed
    qed
    ultimately show ?thesis by blast
  qed
qed

lemma start_marker_threads_fails:
  assumes "\<forall>j. i \<le> j \<and> j < k \<longrightarrow> bt j" "i \<le> k" "int k < GC_markers_m1 m" "\<not> bt k"
  shows "\<exists>l. start_marker_threads bt i m = (k, m\<lparr>marker_last_stack_min := l\<rparr>)"
  using assms
proof (induction bt i m rule: start_marker_threads.induct)
  case (1 bt i m)
  let ?m1 = "m\<lparr>marker_last_stack_min := (marker_last_stack_min m)[i := ADDR_LIMIT]\<rparr>"
  from "1.prems" have lt: "int i < GC_markers_m1 m" by simp
  show ?case
  proof (cases "i = k")
    case True
    with "1.prems" have "\<not> bt i" by simp
    with lt have "start_marker_threads bt i m = (i, ?m1)"
      by (simp add: start_marker_threads.simps[of bt i m])
    with True show ?thesis by blast
  next
    case False
    with "1.prems" have b: "bt i" and le: "Suc i \<le> k" by auto
    from "1.prems" have "\<forall>j. Suc i \<le> j \<and> j < k \<longrightarrow> bt j" by auto
    from "1.IH"[OF lt refl b this le _ "1.prems"(4)] "1.prems"(3)
    obtain l where "start_marker_threads bt (Suc i) ?m1 = (k, ?m1\<lparr>marker_last_stack_min := l\<rparr>)"
      by auto
    with lt b have "start_marker_threads bt i m = (k, m\<lparr>marker_last_stack_min := l\<rparr>)"
      by (simp add: start_marker_threads.simps[of bt i m])
    then show ?thesis by blast
  qed
qed

lemma start_marker_threads_all:
  assumes "\<forall>j. i \<le> j \<and> int j < GC_markers_m1 m \<longrightarrow> bt j" "int i \<le> GC_markers_m1 m"
  shows "\<exists>l. start_marker_threads bt i m = (nat (GC_markers_m1 m), m\<lparr>marker_last_stack_min := l\<rparr>)"
  using assms
proof (induction bt i m rule: start_marker_threads.induct)
  case (1 bt i m)
  let ?m1 = "m\<lparr>marker_last_stack_min := (marker_last_stack_min m)[i := ADDR_LIMIT]\<rparr>"
  show ?case
  proof (cases "int i < GC_markers_m1 m")
    case False
    with "1.prems" have "start_marker_threads bt i m = (nat (GC_markers_m1 m), m\<lparr>marker_last_stack_min := marker_last_stack_min m\<rparr>)"
      by (simp add: start_marker_threads.simps[of bt i m])
    then show ?thesis by blast
  next
    case True
    with "1.prems" have b: "bt i" by auto
    from "1.prems" have "\<forall>j. Suc i \<le> j \<and> int j < GC_markers_m1 ?m1 \<longrightarrow> bt j" by auto
    from "1.IH"[OF True refl b this] True
    obtain l where "start_marker_threads bt (Suc i) ?m1 = (nat (GC_markers_m1 ?m1), ?m1\<lparr>marker_last_stack_min := l\<rparr>)"
      by auto
    with True b have "start_marker_threads bt i m = (nat (GC_markers_m1 m), m\<lparr>marker_last_stack_min := l\<rparr>)"
      by (simp add: start_marker_threads.simps[of bt i m])
    then show ?thesis by blast
  qed
qed

lemma release_unused_events_eq:
  assumes "GC_markers_m1 m = int n" "i \<le> n"
  shows "release_unused_events i m =
         m\<lparr>GC_markers_m1 := int i,
           closed_events := closed_events m @ map (\<lambda>j. GC_marker_cv m ! j) (rev [i ..< n])\<rparr>"
  using assms
proof (induction i m arbitrary: n rule: release_unused_events.induct)
  case (1 i m)
  show ?case
  proof (cases "GC_markers_m1 m > int i")
    case False
    with "1.prems" have "n = i" by simp
    with False "1.prems" show ?thesis
      by (simp add: release_unused_events.simps[of i m])
  next
    case True
    with "1.prems" obtain n' where n: "n = Suc n'" and le: "i \<le> n'" by (cases n) auto
    let ?m1 = "m\<lparr>GC_markers_m1 := GC_markers_m1 m - 1\<rparr>"
    let ?m2 = "?m1\<lparr>closed_events := closed_events ?m1 @ [GC_marker_cv ?m1 ! nat (GC_markers_m1 ?m1)]\<rparr>"
    have g: "GC_markers_m1 ?m2 = int n'" using "1.prems" n by simp
    from "1.IH"[OF True refl g le] True "1.prems" n show ?thesis
      by (simp add: release_unused_events.simps[of i m] Let_def)
  qed
qed

lemma create_marker_pthreads_fails:
  assumes "\<forall>j. i \<le> j \<and> j < k \<longrightarrow> ok j" "i \<le> k" "int k < available_markers_m1 m" "\<not> ok k"
  shows "\<exists>l. create_marker_pthreads ok i m = m\<lparr>marker_last_stack_min := l, GC_markers_m1 := int k\<rparr>"
  using assms
proof (induction ok i m rule: create_marker_pthreads.induct)
  case (1 ok i m)
  let ?m1 = "m\<lparr>marker_last_stack_min := (marker_last_stack_min m)[i := ADDR_LIMIT]\<rparr>"
  from "1.prems" have lt: "int i < available_markers_m1 m" by simp
  show ?case
  proof (cases "i = k")
    case True
    with "1.prems" have "\<not> ok i" by simp
    with lt have "create_marker_pthreads ok i m = ?m1\<lparr>GC_markers_m1 := int i\<rparr>"
      by (simp add: create_marker_pthreads.simps[of ok i m])
    with True show ?thesis by blast
  next
    case False
    with "1.prems" have b: "ok i" and le: "Suc i \<le> k" by auto
    then have nb: "\<not> \<not> ok i" by simp
    from "1.prems" have "\<forall>j. Suc i \<le> j \<and> j < k \<longrightarrow> ok j" by auto
    from "1.IH"[OF lt refl nb this le _ "1.prems"(4)] "1.prems"(3)
    obtain l where "create_marker_pthreads ok (Suc i) ?m1 = ?m1\<lparr>marker_last_stack_min := l, GC_markers_m1 := int k\<rparr>"
      by auto
    with lt b have "create_marker_pthreads ok i m = m\<lparr>marker_last_stack_min := l, GC_markers_m1 := int k\<rparr>"
      by (simp add: create_marker_pthreads.simps[of ok i m])
    then show ?thesis by blast
  qed
qed

lemma create_marker_pthreads_all:
  assumes "\<forall>j. i \<le> j \<and> int j < available_markers_m1 m \<longrightarrow> ok j"
  shows "\<exists>l. create_marker_pthreads ok i m = m\<lparr>marker_last_stack_min := l\<rparr>"
  using assms
proof (induction ok i m rule: create_marker_pthreads.induct)
  case (1 ok i m)
  let ?m1 = "m\<lparr>marker_last_stack_min := (marker_last_stack_min m)[i := ADDR_LIMIT]\<rparr>"
  show ?case
  proof (cases "int i < available_markers_m1 m")
    case False
    then have "create_marker_pthreads ok i m = m\<lparr>marker_last_stack_min := marker_last_stack_min m\<rparr>"
      by (simp add: create_marker_pthreads.simps[of ok i m])
    then show ?thesis by blast
  next
    case True
    with "1.prems" have b: "ok i" by auto
    then have nb: "\<not> \<not> ok i" by simp
    from "1.prems" have "\<forall>j. Suc i \<le> j \<and> int j < available_markers_m1 ?m1 \<longrightarrow> ok j" by auto
    from "1.IH"[OF True refl nb this]
    obtain l where "create_marker_pthreads ok (Suc i) ?m1 = ?m1\<lparr>marker_last_stack_min := l\<rparr>"
      by auto
    with True b have "create_marker_pthreads ok i m = m\<lparr>marker_last_stack_min := l\<rparr>"
      by (simp add: create_marker_pthreads.simps[of ok i m])
    then show ?thesis by blast
  qed
qed


lemma assign_globals [simp]:
  "GC_win32_dll_threads (assign r t s) = GC_win32_dll_threads s"
  "GC_please_stop (assign r t s) = GC_please_stop s"
  "GC_attached_thread (assign r t s) = GC_attached_thread s"
  "GC_need_to_lock (assign r t s) = GC_need_to_lock s"
  "GC_in_thread_creation (assign r t s) = GC_in_thread_creation s"
  "GC_max_thread_index (assign r t s) = GC_max_thread_index s"
  "os (assign r t s) = os s"
  by (simp_all add: assign_def split: thread_ref.splits)

lemma register_inner_globals:
  assumes "GC_register_my_thread_inner ix m dup sb tid s = Inr (me, s')"
  shows "GC_win32_dll_threads s' = GC_win32_dll_threads s"
    and "GC_please_stop s' = GC_please_stop s"
    and "GC_win32_dll_threads s \<Longrightarrow> GC_attached_thread s' = (GC_attached_thread s \<or> GC_please_stop s)"
    and "\<not> GC_win32_dll_threads s \<Longrightarrow> GC_attached_thread s' = GC_attached_thread s"
  using assms
  by (auto simp: GC_register_my_thread_inner_def GC_new_thread_def GC_record_stack_base_def Let_def
      split: if_splits sum.splits prod.splits option.splits)

lemma stop_world_globals:
  assumes "GC_stop_world pth ix att self s = Inr s'"
  shows "GC_win32_dll_threads s' = GC_win32_dll_threads s"
    and "GC_please_stop s'"
    and "GC_win32_dll_threads s \<Longrightarrow> \<not> GC_attached_thread s'"
    and "\<not> GC_win32_dll_threads s \<Longrightarrow> GC_attached_thread s' = GC_attached_thread s"
  using assms
  by (auto simp: GC_stop_world_def Let_def split: if_splits sum.splits prod.splits)

lemma start_world_globals:
  assumes "GC_start_world r s = Inr s'"
  shows "GC_win32_dll_threads s' = GC_win32_dll_threads s"
    and "\<not> GC_please_stop s'"
    and "GC_attached_thread s' = GC_attached_thread s"
  using assms
  by (auto simp: GC_start_world_def Let_def split: if_splits sum.splits prod.splits)

lemma main_registered_explicit:
  "main_registered False = (initial_state False 4)
     \<lparr>first_thread_used := True,
      GC_threads := [[], [zero_thread\<lparr>handle := 11, last_stack_min := ADDR_LIMIT,
                                      stack_end := 0x8000, thread_id := 1\<rparr>], [], []]\<rparr>"
  by (simp add: main_registered_def GC_thr_init_def GC_register_my_thread_inner_def initial_state_def
      example_index_def GC_new_thread_def GC_record_stack_base_def deref_def assign_def Let_def
      buckets_unfold)

lemma main_registered_dll:
  "main_registered True = (initial_state True 4)
     \<lparr>dll_thread_table :=
        (zero_thread\<lparr>in_use := True, handle := 11, last_stack_min := ADDR_LIMIT,
                      stack_end := 0x8000, thread_id := 1\<rparr>)
        # zero_thread # zero_thread # replicate 509 zero_thread\<rparr>"
  by (simp add: main_registered_def GC_thr_init_def GC_register_my_thread_inner_def initial_state_def
      example_index_def GC_record_stack_base_def deref_def assign_def Let_def
      acquire_slot_free acquire_slot_busy raise_max_thread_index_max table_unfold zero_thread_def
      MAX_THREADS_def)

subsection \<open>The marker count is clamped\<close>

text \<open>
  C10. For every argument \<open>n\<close>, \<open>GC_set_markers_count n\<close> stores \<open>n\<close> when \<open>n < MAX_MARKERS\<close>
  and \<open>MAX_MARKERS\<close> (16) otherwise, so the stored count is at most 16; the function has no
  error result and changes nothing else.
\<close>

theorem GC_set_markers_count_clamps:
  "required_markers_cnt (GC_set_markers_count n m) = (if unat n < 16 then n else 16)
   \<and> unat (required_markers_cnt (GC_set_markers_count n m)) = min (unat n) MAX_MARKERS
   \<and> unat (required_markers_cnt (GC_set_markers_count n m)) \<le> MAX_MARKERS
   \<and> GC_set_markers_count n m = m\<lparr>required_markers_cnt := required_markers_cnt (GC_set_markers_count n m)\<rparr>"
  by (auto simp: GC_set_markers_count_def MAX_MARKERS_def word_less_nat_alt min_def)


theorem GC_set_markers_count_example:
  "required_markers_cnt (GC_set_markers_count 4 example_pool) = 4
   \<and> required_markers_cnt (GC_set_markers_count 16 example_pool) = 16
   \<and> required_markers_cnt (GC_set_markers_count 4000000000 example_pool) = 16"
  using GC_set_markers_count_clamps[of 4 example_pool]
    GC_set_markers_count_clamps[of 16 example_pool]
    GC_set_markers_count_clamps[of 4000000000 example_pool]
  by simp

subsection \<open>The clamped maximum index\<close>

text \<open>
  C9. \<open>GC_get_max_thread_index\<close> returns a value below \<open>MAX_THREADS\<close> whatever the shared
  counter holds: the counter itself when it is below \<open>MAX_THREADS\<close>, and \<open>MAX_THREADS - 1\<close>
  when it has overshot. So every index \<open>i\<close> of a discovery-mode loop
  \<open>for (i = 0; i <= my_max; i++)\<close> lies in \<open>0 .. MAX_THREADS - 1\<close>, inside
  \<open>dll_thread_table\<close>, an array of \<open>MAX_THREADS\<close> records.
\<close>

theorem GC_get_max_thread_index_in_bounds:
  "GC_get_max_thread_index s < MAX_THREADS
   \<and> GC_get_max_thread_index s =
       (if GC_max_thread_index s \<ge> MAX_THREADS then MAX_THREADS - 1 else GC_max_thread_index s)
   \<and> (\<forall>i \<in> set (dll_loop_indices s).
         0 \<le> i \<and> i < MAX_THREADS
         \<and> (length (dll_thread_table s) = nat MAX_THREADS \<longrightarrow> nat i < length (dll_thread_table s)))"
  by (auto simp: GC_get_max_thread_index_def MAX_THREADS_def Let_def dll_loop_indices_def)

theorem GC_get_max_thread_index_example:
  "GC_get_max_thread_index (initial_state True 4\<lparr>GC_max_thread_index := 600\<rparr>) = 511
   \<and> 511 \<in> set (dll_loop_indices (initial_state True 4\<lparr>GC_max_thread_index := 600\<rparr>))
   \<and> nat 511 < length (dll_thread_table (initial_state True 4\<lparr>GC_max_thread_index := 600\<rparr>))"
proof -
  let ?s = "initial_state True 4\<lparr>GC_max_thread_index := 600\<rparr>"
  have m: "GC_get_max_thread_index ?s = 511"
    using GC_get_max_thread_index_in_bounds[of ?s]
    by (simp add: initial_state_def MAX_THREADS_def)
  then have i: "511 \<in> set (dll_loop_indices ?s)"
    by (simp add: dll_loop_indices_def)
  have "length (dll_thread_table ?s) = nat MAX_THREADS"
    by (simp add: initial_state_def)
  with GC_get_max_thread_index_in_bounds[of ?s] i have "nat 511 < length (dll_thread_table ?s)"
    by blast
  with m i show ?thesis by simp
qed

subsection \<open>The retry budget of GC\_suspend\<close>

text \<open>
  C7. The loop of \<open>GC_suspend\<close> is bounded by \<open>MAX_SUSPEND_THREAD_RETRIES\<close> (1000 * 1000)
  rounds. A round that fails transiently is retried; when every round below the budget
  fails transiently the process aborts with "SuspendThread loop failed"; when the round
  \<open>k\<close> below the budget is the first that does not fail and the context is read there, the
  call returns with the fifteen registers of that context (Rax, Rcx, Rdx, Rbx, Rbp, Rsi,
  Rdi, R8 .. R15, in this order) and its stack pointer Rsp stored in the record, the
  record marked IS\_SUSPENDED and the thread suspended once. No round beyond the budget is
  ever looked at: two systems that agree below the budget give the same result. (The loop
  is a total function, so the call always ends.)
\<close>

theorem GC_suspend_bounded:
  "((\<forall>k < MAX_SUSPEND_THREAD_RETRIES. transient (att k))
      \<longrightarrow> GC_suspend pthreads att t st = Inl (ABORT ''SuspendThread loop failed''))
   \<and> (k < MAX_SUSPEND_THREAD_RETRIES \<and> (\<forall>j < k. transient (att j)) \<and> att k = Context_captured c
      \<longrightarrow> GC_suspend pthreads att t st =
            Inr (Kept (t\<lparr>context_regs :=
                           [Rax c, Rcx c, Rdx c, Rbx c, Rbp c, Rsi c, Rdi c,
                            R8 c, R9 c, R10 c, R11 c, R12 c, R13 c, R14 c, R15 c],
                         context_sp := Rsp c,
                         flags := insert IS_SUSPENDED (flags t)\<rparr>),
                 SuspendThread (handle t) st))
   \<and> ((\<forall>k < MAX_SUSPEND_THREAD_RETRIES. att k = att' k)
      \<longrightarrow> GC_suspend pthreads att t st = GC_suspend pthreads att' t st)
   \<and> MAX_SUSPEND_THREAD_RETRIES = 1000000"
proof (intro conjI impI)
  assume "\<forall>k < MAX_SUSPEND_THREAD_RETRIES. transient (att k)"
  then have "suspend_loop att (handle t) 0 st = Inl (ABORT ''SuspendThread loop failed'')"
    by (intro suspend_loop_all_fail) (simp_all add: MAX_SUSPEND_THREAD_RETRIES_def)
  then show "GC_suspend pthreads att t st = Inl (ABORT ''SuspendThread loop failed'')"
    by (simp add: GC_suspend_def)
next
  assume a: "k < MAX_SUSPEND_THREAD_RETRIES \<and> (\<forall>j < k. transient (att j)) \<and> att k = Context_captured c"
  then have "suspend_loop att (handle t) 0 st = suspend_loop att (handle t) k st"
    by (intro suspend_loop_after_retries) simp_all
  with a have "suspend_loop att (handle t) 0 st = Inr (Exit_captured c, SuspendThread (handle t) st)"
    by (simp add: suspend_loop_captured)
  then show "GC_suspend pthreads att t st =
      Inr (Kept (t\<lparr>context_regs :=
                     [Rax c, Rcx c, Rdx c, Rbx c, Rbp c, Rsi c, Rdi c,
                      R8 c, R9 c, R10 c, R11 c, R12 c, R13 c, R14 c, R15 c],
                   context_sp := Rsp c,
                   flags := insert IS_SUSPENDED (flags t)\<rparr>),
           SuspendThread (handle t) st)"
    by (simp add: GC_suspend_def copy_ptr_regs_def)
next
  assume "\<forall>k < MAX_SUSPEND_THREAD_RETRIES. att k = att' k"
  then have "suspend_loop att (handle t) 0 st = suspend_loop att' (handle t) 0 st"
    by (intro suspend_loop_agree) (simp_all add: MAX_SUSPEND_THREAD_RETRIES_def)
  then show "GC_suspend pthreads att t st = GC_suspend pthreads att' t st"
    by (simp add: GC_suspend_def)
next
  show "MAX_SUSPEND_THREAD_RETRIES = 1000000"
    by (simp add: MAX_SUSPEND_THREAD_RETRIES_def)
qed

theorem GC_suspend_bounded_example:
  "GC_suspend False (\<lambda>k. Suspend_failed) zero_thread (os (initial_state False 4))
     = Inl (ABORT ''SuspendThread loop failed'')
   \<and> GC_suspend False (stale_attempts 7) (zero_thread\<lparr>handle := 7\<rparr>) (os (initial_state False 4))
     = Inr (Kept (zero_thread\<lparr>handle := 7,
                              context_regs := [1, 2, 3, 4, 5, 6, 7, 8, 9, 10, 11, 12, 13, 14, 15],
                              context_sp := 0x7000, flags := {IS_SUSPENDED}\<rparr>),
            SuspendThread 7 (os (initial_state False 4)))"
proof -
  have "\<forall>k < MAX_SUSPEND_THREAD_RETRIES. transient ((\<lambda>k. Suspend_failed) k)"
    by (simp add: transient_def)
  with GC_suspend_bounded[of "\<lambda>k. Suspend_failed" False zero_thread "os (initial_state False 4)"]
  have a: "GC_suspend False (\<lambda>k. Suspend_failed) zero_thread (os (initial_state False 4))
     = Inl (ABORT ''SuspendThread loop failed'')"
    by blast
  have "2 < MAX_SUSPEND_THREAD_RETRIES \<and> (\<forall>j < 2. transient (stale_attempts 7 j))
      \<and> stale_attempts 7 2 = Context_captured numbered_context"
    by (simp add: MAX_SUSPEND_THREAD_RETRIES_def transient_def stale_attempts_def)
  with GC_suspend_bounded[of "stale_attempts 7" False "zero_thread\<lparr>handle := 7\<rparr>"
      "os (initial_state False 4)" 2 numbered_context]
  have "GC_suspend False (stale_attempts 7) (zero_thread\<lparr>handle := 7\<rparr>) (os (initial_state False 4))
     = Inr (Kept (zero_thread\<lparr>handle := 7,
                    context_regs :=
                      [Rax numbered_context, Rcx numbered_context, Rdx numbered_context,
                       Rbx numbered_context, Rbp numbered_context, Rsi numbered_context,
                       Rdi numbered_context, R8 numbered_context, R9 numbered_context,
                       R10 numbered_context, R11 numbered_context, R12 numbered_context,
                       R13 numbered_context, R14 numbered_context, R15 numbered_context],
                    context_sp := Rsp numbered_context,
                    flags := insert IS_SUSPENDED (flags (zero_thread\<lparr>handle := 7\<rparr>))\<rparr>),
            SuspendThread (handle (zero_thread\<lparr>handle := 7\<rparr>)) (os (initial_state False 4)))"
    by blast
  then have b: "GC_suspend False (stale_attempts 7) (zero_thread\<lparr>handle := 7\<rparr>) (os (initial_state False 4))
     = Inr (Kept (zero_thread\<lparr>handle := 7,
                              context_regs := [1, 2, 3, 4, 5, 6, 7, 8, 9, 10, 11, 12, 13, 14, 15],
                              context_sp := 0x7000, flags := {IS_SUSPENDED}\<rparr>),
            SuspendThread 7 (os (initial_state False 4)))"
    by (simp add: numbered_context_def zero_thread_def)
  from a b show ?thesis by simp
qed

subsection \<open>Registering twice\<close>

lemma register_inner_need_to_lock:
  "GC_register_my_thread_inner ix m dup sb tid s = Inr (me, s')
     \<Longrightarrow> GC_need_to_lock s' = GC_need_to_lock s"
  by (auto simp: GC_register_my_thread_inner_def GC_new_thread_def GC_record_stack_base_def Let_def
      split: if_splits sum.splits prod.splits option.splits)

lemma register_my_thread_need_to_lock:
  assumes "GC_register_my_thread pthreads ix m dup self_id sb s0 = Inr (r, s)"
  shows "GC_need_to_lock s"
proof -
  from assms have n: "GC_need_to_lock s0"
    by (auto simp: GC_register_my_thread_def split: if_splits)
  show ?thesis
  proof (cases "GC_lookup_thread ix self_id s0")
    case None
    with assms n obtain me s1 where
      i: "GC_register_my_thread_inner ix m dup sb self_id s0 = Inr (me, s1)"
      and s: "s = (if pthreads
                   then assign me ((deref s1 me)\<lparr>flags := insert DETACHED (flags (deref s1 me))\<rparr>) s1
                   else s1)"
      by (auto simp: GC_register_my_thread_def split: sum.splits)
    from register_inner_need_to_lock[OF i] n s show ?thesis by simp
  next
    case (Some me)
    with assms n show ?thesis
      by (auto simp: GC_register_my_thread_def GC_record_stack_base_def split: if_splits)
  qed
qed

text \<open>
  Before any call of \<open>GC_register_my_thread\<close> can return, explicit registration must have
  been enabled: with \<open>GC_need_to_lock\<close> FALSE the call aborts before it looks the thread up.
\<close>

lemma GC_register_my_thread_guard:
  "\<not> GC_need_to_lock s
     \<Longrightarrow> GC_register_my_thread pthreads ix m dup self_id sb s
         = Inl (ABORT ''Threads explicit registering is not previously enabled'')"
  by (simp add: GC_register_my_thread_def)

text \<open>
  C5. For a thread that is registered and still running (its record is found and is not
  FINISHED), a second call of \<open>GC_register_my_thread\<close>, that is a call in the state \<open>s\<close> a
  call of \<open>GC_register_my_thread\<close> has returned in, returns \<open>GC_DUPLICATE\<close> and leaves the
  whole state as it is: the record, the table of slots and the hash table. A call that
  has returned leaves \<open>GC_need_to_lock\<close> set, nothing in the file clears it, and in every
  state where it is set a call for a thread whose record is found and is not FINISHED
  returns \<open>GC_DUPLICATE\<close> with the state unchanged.
\<close>

theorem GC_register_my_thread_duplicate:
  assumes found: "GC_lookup_thread THREAD_TABLE_INDEX self_id s = Some me"
      and running: "\<not> KNOWN_FINISHED (deref s me)"
  shows "(\<forall>malloc_ok0 dup0 sb0 s0 r.
            GC_register_my_thread pthreads THREAD_TABLE_INDEX malloc_ok0 dup0 self_id sb0 s0 = Inr (r, s)
            \<longrightarrow> GC_need_to_lock s
                \<and> GC_register_my_thread pthreads THREAD_TABLE_INDEX malloc_ok dup self_id sb s
                    = Inr (GC_DUPLICATE, s))
         \<and> (GC_need_to_lock s
            \<longrightarrow> GC_register_my_thread pthreads THREAD_TABLE_INDEX malloc_ok dup self_id sb s
                  = Inr (GC_DUPLICATE, s))"
proof -
  from found running have d: "GC_need_to_lock s
            \<longrightarrow> GC_register_my_thread pthreads THREAD_TABLE_INDEX malloc_ok dup self_id sb s
                  = Inr (GC_DUPLICATE, s)"
    by (simp add: GC_register_my_thread_def)
  with register_my_thread_need_to_lock show ?thesis by blast
qed

lemma first_call_registers:
  "\<exists>s. GC_register_my_thread False example_index True (Some 12) 2 \<lparr>mem_base = 0x4FF0\<rparr>
          (main_registered False\<lparr>GC_need_to_lock := True\<rparr>) = Inr (GC_SUCCESS, s)
       \<and> GC_threads s
           = [[], [zero_thread\<lparr>handle := 11, last_stack_min := ADDR_LIMIT,
                                stack_end := 0x8000, thread_id := 1\<rparr>],
              [zero_thread\<lparr>handle := 12, last_stack_min := ADDR_LIMIT,
                           stack_end := 0x4FF0, thread_id := 2\<rparr>], []]
       \<and> \<not> GC_win32_dll_threads s"
  by (simp add: GC_register_my_thread_def GC_lookup_thread_def main_registered_explicit
      GC_register_my_thread_inner_def initial_state_def example_index_def GC_new_thread_def
      GC_record_stack_base_def deref_def assign_def Let_def)

theorem GC_register_my_thread_duplicate_example:
  "\<exists>s. GC_register_my_thread False example_index True (Some 12) 2 \<lparr>mem_base = 0x4FF0\<rparr>
          (main_registered False\<lparr>GC_need_to_lock := True\<rparr>) = Inr (GC_SUCCESS, s)
       \<and> GC_lookup_thread example_index 2 s = Some (Bucket_pos 2 0)
       \<and> thread_id (deref s (Bucket_pos 2 0)) = 2
       \<and> GC_register_my_thread False example_index True (Some 13) 2 \<lparr>mem_base = 0x9000\<rparr> s
           = Inr (GC_DUPLICATE, s)"
proof -
  from first_call_registers obtain s where
    first: "GC_register_my_thread False example_index True (Some 12) 2 \<lparr>mem_base = 0x4FF0\<rparr>
          (main_registered False\<lparr>GC_need_to_lock := True\<rparr>) = Inr (GC_SUCCESS, s)"
    and g: "GC_threads s
           = [[], [zero_thread\<lparr>handle := 11, last_stack_min := ADDR_LIMIT,
                                stack_end := 0x8000, thread_id := 1\<rparr>],
              [zero_thread\<lparr>handle := 12, last_stack_min := ADDR_LIMIT,
                           stack_end := 0x4FF0, thread_id := 2\<rparr>], []]"
    and m: "\<not> GC_win32_dll_threads s"
    by blast
  from g m have l: "GC_lookup_thread example_index 2 s = Some (Bucket_pos 2 0)"
    by (simp add: GC_lookup_thread_def example_index_def)
  from g have f: "\<not> KNOWN_FINISHED (deref s (Bucket_pos 2 0))"
    "thread_id (deref s (Bucket_pos 2 0)) = 2"
    by (simp_all add: KNOWN_FINISHED_def deref_def zero_thread_def)
  from GC_register_my_thread_duplicate[OF l f(1), of False True "Some 13" "\<lparr>mem_base = 0x9000\<rparr>"] first
  have "GC_register_my_thread False example_index True (Some 13) 2 \<lparr>mem_base = 0x9000\<rparr> s
           = Inr (GC_DUPLICATE, s)"
    by blast
  with first l f(2) have
    "GC_register_my_thread False example_index True (Some 12) 2 \<lparr>mem_base = 0x4FF0\<rparr>
          (main_registered False\<lparr>GC_need_to_lock := True\<rparr>) = Inr (GC_SUCCESS, s)
       \<and> GC_lookup_thread example_index 2 s = Some (Bucket_pos 2 0)
       \<and> thread_id (deref s (Bucket_pos 2 0)) = 2
       \<and> GC_register_my_thread False example_index True (Some 13) 2 \<lparr>mem_base = 0x9000\<rparr> s
           = Inr (GC_DUPLICATE, s)"
    by (intro conjI)
  then show ?thesis by (intro exI)
qed

subsection \<open>Threads that attach while the world is stopped\<close>

lemma stop_dll_loop_done:
  "\<not> i < n \<Longrightarrow> stop_dll_loop pthreads ix att arriving self_id i n s
                  = attach_all ix (concat arriving) s"
  by (simp add: stop_dll_loop.simps[of pthreads ix att arriving self_id i n s])

lemma stop_dll_loop_step:
  "i < n \<Longrightarrow> stop_dll_loop pthreads ix att arriving self_id i n s =
     (case attach_all ix (concat (take 1 arriving)) s of
              Inl e \<Rightarrow> Inl e
            | Inr s1 \<Rightarrow>
                (let p = dll_thread_table s1 ! i
                 in if stack_end p \<noteq> 0 \<and> DO_BLOCKING \<notin> flags p \<and> thread_id p \<noteq> self_id
                    then (case GC_suspend pthreads (att (handle p)) p (os s1) of
                            Inl e \<Rightarrow> Inl e
                          | Inr (Kept p', st') \<Rightarrow>
                              stop_dll_loop pthreads ix att (drop 1 arriving) self_id
                                (Suc i) n
                                (s1\<lparr>dll_thread_table := (dll_thread_table s1)[i := p'], os := st'\<rparr>)
                          | Inr (Deleted p', st') \<Rightarrow>
                              stop_dll_loop pthreads ix att (drop 1 arriving) self_id
                                (Suc i) n
                                (s1\<lparr>dll_thread_table := (dll_thread_table s1)[i := clear_dll_slot p'],
                                    os := CloseHandle (handle p') st'\<rparr>))
                    else stop_dll_loop pthreads ix att (drop 1 arriving) self_id
                           (Suc i) n s1))"
  by (simp add: stop_dll_loop.simps[of pthreads ix att arriving self_id i n s])

lemma start_dll_loop_done:
  "\<not> i < n \<Longrightarrow> start_dll_loop resumes ix arriving i n s = attach_all ix (concat arriving) s"
  by (simp add: start_dll_loop.simps[of resumes ix arriving i n s])

lemma start_dll_loop_step:
  "i < n \<Longrightarrow> start_dll_loop resumes ix arriving i n s =
     (case attach_all ix (concat (take 1 arriving)) s of
              Inl e \<Rightarrow> Inl e
            | Inr s1 \<Rightarrow>
                (let p = dll_thread_table s1 ! i
                 in if IS_SUSPENDED \<in> flags p
                    then (if \<not> resumes (handle p) then Inl (ABORT ''ResumeThread failed'')
                          else start_dll_loop resumes ix (drop 1 arriving) (Suc i) n
                                 (s1\<lparr>dll_thread_table :=
                                        (dll_thread_table s1)[i := p\<lparr>flags := flags p - {IS_SUSPENDED}\<rparr>],
                                     os := ResumeThread (handle p) (os s1)\<rparr>))
                    else start_dll_loop resumes ix (drop 1 arriving) (Suc i) n s1))"
  by (simp add: start_dll_loop.simps[of resumes ix arriving i n s])

lemma attach_all_flags:
  "GC_win32_dll_threads s \<Longrightarrow> attach_all ix regs s = Inr s'
     \<Longrightarrow> GC_win32_dll_threads s' \<and> GC_please_stop s' = GC_please_stop s
         \<and> GC_attached_thread s' = (GC_attached_thread s \<or> (GC_please_stop s \<and> regs \<noteq> []))"
proof (induction regs arbitrary: s)
  case Nil
  then show ?case by simp
next
  case (Cons reg regs)
  obtain dup sb tid where reg: "reg = (dup, sb, tid)" by (cases reg) auto
  with Cons.prems(2) obtain me s1 where
    r: "GC_register_my_thread_inner ix True dup sb tid s = Inr (me, s1)"
    and rest: "attach_all ix regs s1 = Inr s'"
    by (auto split: sum.splits)
  from register_inner_globals[OF r] Cons.prems(1) have
    g: "GC_win32_dll_threads s1" "GC_please_stop s1 = GC_please_stop s"
       "GC_attached_thread s1 = (GC_attached_thread s \<or> GC_please_stop s)" by auto
  from Cons.IH[OF g(1) rest] g show ?case by auto
qed

lemma concat_take_drop_1:
  "(concat (take 1 xs) \<noteq> [] \<or> concat (drop 1 xs) \<noteq> []) = (concat xs \<noteq> [])"
  by (cases xs) auto

lemma stop_dll_loop_skip:
  assumes "i < n" "attach_all ix (concat (take 1 arriving)) s = Inr s1"
    and "\<not> (stack_end (dll_thread_table s1 ! i) \<noteq> 0
             \<and> DO_BLOCKING \<notin> flags (dll_thread_table s1 ! i)
             \<and> thread_id (dll_thread_table s1 ! i) \<noteq> self_id)"
  shows "stop_dll_loop pthreads ix att arriving self_id i n s
           = stop_dll_loop pthreads ix att (drop 1 arriving) self_id (Suc i) n s1"
  using assms
  by (cases "stack_end (dll_thread_table s1 ! i) = 0";
      cases "DO_BLOCKING \<in> flags (dll_thread_table s1 ! i)";
      cases "thread_id (dll_thread_table s1 ! i) = self_id")
     (simp_all add: stop_dll_loop_step Let_def)

lemma stop_dll_loop_suspends:
  assumes "i < n" "attach_all ix (concat (take 1 arriving)) s = Inr s1"
    and "stack_end (dll_thread_table s1 ! i) \<noteq> 0"
        "DO_BLOCKING \<notin> flags (dll_thread_table s1 ! i)"
        "thread_id (dll_thread_table s1 ! i) \<noteq> self_id"
  shows "stop_dll_loop pthreads ix att arriving self_id i n s
           = (case GC_suspend pthreads (att (handle (dll_thread_table s1 ! i)))
                     (dll_thread_table s1 ! i) (os s1) of
                Inl e \<Rightarrow> Inl e
              | Inr (Kept p', st') \<Rightarrow>
                  stop_dll_loop pthreads ix att (drop 1 arriving) self_id (Suc i) n
                    (s1\<lparr>dll_thread_table := (dll_thread_table s1)[i := p'], os := st'\<rparr>)
              | Inr (Deleted p', st') \<Rightarrow>
                  stop_dll_loop pthreads ix att (drop 1 arriving) self_id (Suc i) n
                    (s1\<lparr>dll_thread_table := (dll_thread_table s1)[i := clear_dll_slot p'],
                        os := CloseHandle (handle p') st'\<rparr>))"
  using assms by (simp add: stop_dll_loop_step Let_def)

lemma stop_dll_loop_attach_fails:
  "i < n \<Longrightarrow> attach_all ix (concat (take 1 arriving)) s = Inl e
     \<Longrightarrow> stop_dll_loop pthreads ix att arriving self_id i n s = Inl e"
  by (simp add: stop_dll_loop_step)

lemma start_dll_loop_skip:
  assumes "i < n" "attach_all ix (concat (take 1 arriving)) s = Inr s1"
    and "IS_SUSPENDED \<notin> flags (dll_thread_table s1 ! i)"
  shows "start_dll_loop resumes ix arriving i n s
           = start_dll_loop resumes ix (drop 1 arriving) (Suc i) n s1"
  using assms by (simp add: start_dll_loop_step Let_def)

lemma start_dll_loop_resumes:
  assumes "i < n" "attach_all ix (concat (take 1 arriving)) s = Inr s1"
    and "IS_SUSPENDED \<in> flags (dll_thread_table s1 ! i)"
  shows "start_dll_loop resumes ix arriving i n s
           = (if \<not> resumes (handle (dll_thread_table s1 ! i)) then Inl (ABORT ''ResumeThread failed'')
              else start_dll_loop resumes ix (drop 1 arriving) (Suc i) n
                     (s1\<lparr>dll_thread_table :=
                           (dll_thread_table s1)[i := (dll_thread_table s1 ! i)
                              \<lparr>flags := flags (dll_thread_table s1 ! i) - {IS_SUSPENDED}\<rparr>],
                         os := ResumeThread (handle (dll_thread_table s1 ! i)) (os s1)\<rparr>))"
  using assms by (simp add: start_dll_loop_step Let_def)

lemma start_dll_loop_attach_fails:
  "i < n \<Longrightarrow> attach_all ix (concat (take 1 arriving)) s = Inl e
     \<Longrightarrow> start_dll_loop resumes ix arriving i n s = Inl e"
  by (simp add: start_dll_loop_step)

lemma stop_dll_loop_flags:
  "GC_win32_dll_threads s \<Longrightarrow> stop_dll_loop pthreads ix att arriving self_id i n s = Inr s'
     \<Longrightarrow> GC_win32_dll_threads s' \<and> GC_please_stop s' = GC_please_stop s
         \<and> GC_attached_thread s'
             = (GC_attached_thread s \<or> (GC_please_stop s \<and> concat arriving \<noteq> []))"
proof (induction "n - i" arbitrary: i arriving s)
  case 0
  then have "attach_all ix (concat arriving) s = Inr s'" by (simp add: stop_dll_loop_done)
  from attach_all_flags[OF "0.prems"(1) this] show ?case by simp
next
  case (Suc k)
  then have lt: "i < n" by simp
  from Suc.hyps(2) have k: "k = n - Suc i" by simp
  obtain s1 where a: "attach_all ix (concat (take 1 arriving)) s = Inr s1"
  proof (cases "attach_all ix (concat (take 1 arriving)) s")
    case (Inl e)
    from stop_dll_loop_attach_fails[OF lt Inl] Suc.prems(2) show ?thesis by simp
  next
    case (Inr s1)
    then show ?thesis by (rule that)
  qed
  note f1 = attach_all_flags[OF Suc.prems(1) a]
  define p where "p = dll_thread_table s1 ! i"
  have "\<exists>s2. stop_dll_loop pthreads ix att (drop 1 arriving) self_id (Suc i) n s2 = Inr s'
          \<and> GC_win32_dll_threads s2 = GC_win32_dll_threads s1
          \<and> GC_please_stop s2 = GC_please_stop s1
          \<and> GC_attached_thread s2 = GC_attached_thread s1"
  proof (cases "stack_end p \<noteq> 0 \<and> DO_BLOCKING \<notin> flags p \<and> thread_id p \<noteq> self_id")
    case False
    from stop_dll_loop_skip[OF lt a False[unfolded p_def]] Suc.prems(2) have
      "stop_dll_loop pthreads ix att (drop 1 arriving) self_id (Suc i) n s1 = Inr s'"
      by (simp only:)
    then show ?thesis by blast
  next
    case True
    then have c: "stack_end (dll_thread_table s1 ! i) \<noteq> 0"
      "DO_BLOCKING \<notin> flags (dll_thread_table s1 ! i)"
      "thread_id (dll_thread_table s1 ! i) \<noteq> self_id" by (simp_all add: p_def)
    note su = stop_dll_loop_suspends[OF lt a c, of pthreads att]
    show ?thesis
    proof (cases "GC_suspend pthreads (att (handle (dll_thread_table s1 ! i)))
                     (dll_thread_table s1 ! i) (os s1)")
      case (Inl e)
      with su Suc.prems(2) show ?thesis by simp
    next
      case (Inr r)
      obtain out st' where r: "r = (out, st')" by (cases r) auto
      show ?thesis
      proof (cases out)
        case (Kept p')
        with su Inr r Suc.prems(2) have
          "stop_dll_loop pthreads ix att (drop 1 arriving) self_id (Suc i) n
             (s1\<lparr>dll_thread_table := (dll_thread_table s1)[i := p'], os := st'\<rparr>) = Inr s'"
          by simp
        then show ?thesis
          by (intro exI[of _ "s1\<lparr>dll_thread_table := (dll_thread_table s1)[i := p'], os := st'\<rparr>"]
              conjI) simp_all
      next
        case (Deleted p')
        with su Inr r Suc.prems(2) have
          "stop_dll_loop pthreads ix att (drop 1 arriving) self_id (Suc i) n
             (s1\<lparr>dll_thread_table := (dll_thread_table s1)[i := clear_dll_slot p'],
                 os := CloseHandle (handle p') st'\<rparr>) = Inr s'"
          by simp
        then show ?thesis
          by (intro exI[of _ "s1\<lparr>dll_thread_table := (dll_thread_table s1)[i := clear_dll_slot p'],
                 os := CloseHandle (handle p') st'\<rparr>"] conjI) simp_all
      qed
    qed
  qed
  then obtain s2 where
    r: "stop_dll_loop pthreads ix att (drop 1 arriving) self_id (Suc i) n s2 = Inr s'"
    and e: "GC_win32_dll_threads s2 = GC_win32_dll_threads s1"
       "GC_please_stop s2 = GC_please_stop s1" "GC_attached_thread s2 = GC_attached_thread s1"
    by blast
  from f1 e have d2: "GC_win32_dll_threads s2" by simp
  from Suc.hyps(1)[OF k d2 r] f1 e concat_take_drop_1[of arriving] show ?case by auto
qed

lemma start_dll_loop_flags:
  "GC_win32_dll_threads s \<Longrightarrow> start_dll_loop resumes ix arriving i n s = Inr s'
     \<Longrightarrow> GC_win32_dll_threads s' \<and> GC_please_stop s' = GC_please_stop s
         \<and> GC_attached_thread s'
             = (GC_attached_thread s \<or> (GC_please_stop s \<and> concat arriving \<noteq> []))"
proof (induction "n - i" arbitrary: i arriving s)
  case 0
  then have "attach_all ix (concat arriving) s = Inr s'" by (simp add: start_dll_loop_done)
  from attach_all_flags[OF "0.prems"(1) this] show ?case by simp
next
  case (Suc k)
  then have lt: "i < n" by simp
  from Suc.hyps(2) have k: "k = n - Suc i" by simp
  obtain s1 where a: "attach_all ix (concat (take 1 arriving)) s = Inr s1"
  proof (cases "attach_all ix (concat (take 1 arriving)) s")
    case (Inl e)
    from start_dll_loop_attach_fails[OF lt Inl] Suc.prems(2) show ?thesis by simp
  next
    case (Inr s1)
    then show ?thesis by (rule that)
  qed
  note f1 = attach_all_flags[OF Suc.prems(1) a]
  have "\<exists>s2. start_dll_loop resumes ix (drop 1 arriving) (Suc i) n s2 = Inr s'
          \<and> GC_win32_dll_threads s2 = GC_win32_dll_threads s1
          \<and> GC_please_stop s2 = GC_please_stop s1
          \<and> GC_attached_thread s2 = GC_attached_thread s1"
  proof (cases "IS_SUSPENDED \<in> flags (dll_thread_table s1 ! i)")
    case False
    from start_dll_loop_skip[OF lt a False] Suc.prems(2) have
      "start_dll_loop resumes ix (drop 1 arriving) (Suc i) n s1 = Inr s'"
      by (simp only:)
    then show ?thesis by blast
  next
    case True
    note re = start_dll_loop_resumes[OF lt a True, of resumes]
    show ?thesis
    proof (cases "resumes (handle (dll_thread_table s1 ! i))")
      case False
      with re Suc.prems(2) show ?thesis by simp
    next
      case True
      with re Suc.prems(2) have
        "start_dll_loop resumes ix (drop 1 arriving) (Suc i) n
           (s1\<lparr>dll_thread_table :=
                 (dll_thread_table s1)[i := (dll_thread_table s1 ! i)
                    \<lparr>flags := flags (dll_thread_table s1 ! i) - {IS_SUSPENDED}\<rparr>],
               os := ResumeThread (handle (dll_thread_table s1 ! i)) (os s1)\<rparr>) = Inr s'"
        by simp
      then show ?thesis
        by (intro exI[of _ "s1\<lparr>dll_thread_table :=
                 (dll_thread_table s1)[i := (dll_thread_table s1 ! i)
                    \<lparr>flags := flags (dll_thread_table s1 ! i) - {IS_SUSPENDED}\<rparr>],
               os := ResumeThread (handle (dll_thread_table s1 ! i)) (os s1)\<rparr>"] conjI) simp_all
    qed
  qed
  then obtain s2 where
    r: "start_dll_loop resumes ix (drop 1 arriving) (Suc i) n s2 = Inr s'"
    and e: "GC_win32_dll_threads s2 = GC_win32_dll_threads s1"
       "GC_please_stop s2 = GC_please_stop s1" "GC_attached_thread s2 = GC_attached_thread s1"
    by blast
  from f1 e have d2: "GC_win32_dll_threads s2" by simp
  from Suc.hyps(1)[OF k d2 r] f1 e concat_take_drop_1[of arriving] show ?case by auto
qed

lemma stop_world_attaching_signal:
  assumes dll: "GC_win32_dll_threads s"
      and r: "GC_stop_world_attaching pthreads ix att before_reset in_loop self_id s = Inr s'"
  shows "GC_win32_dll_threads s' \<and> GC_please_stop s'
         \<and> GC_attached_thread s' = (concat in_loop \<noteq> [])"
proof -
  from r dll obtain s2 where
    a: "attach_all ix before_reset (s\<lparr>GC_please_stop := True\<rparr>) = Inr s2"
    and l: "stop_dll_loop pthreads ix att in_loop self_id 0
              (nat (GC_get_max_thread_index (s2\<lparr>GC_attached_thread := False\<rparr>) + 1))
              (s2\<lparr>GC_attached_thread := False\<rparr>) = Inr s'"
    by (auto simp: GC_stop_world_attaching_def Let_def split: sum.splits)
  from dll have "GC_win32_dll_threads (s\<lparr>GC_please_stop := True\<rparr>)" by simp
  from attach_all_flags[OF this a] have
    f: "GC_win32_dll_threads s2" "GC_please_stop s2" by simp_all
  then have "GC_win32_dll_threads (s2\<lparr>GC_attached_thread := False\<rparr>)" by simp
  from stop_dll_loop_flags[OF this l] f show ?thesis by simp
qed

lemma start_world_attaching_signal:
  assumes dll: "GC_win32_dll_threads s"
      and r: "GC_start_world_attaching resumes ix in_loop s = Inr s'"
  shows "GC_win32_dll_threads s' \<and> \<not> GC_please_stop s'
         \<and> GC_attached_thread s'
             = (GC_attached_thread s \<or> (GC_please_stop s \<and> concat in_loop \<noteq> []))"
proof -
  from r dll obtain s1 where
    l: "start_dll_loop resumes ix in_loop 0 (nat (GC_get_max_thread_index s + 1)) s = Inr s1"
    and e: "s' = s1\<lparr>GC_please_stop := False\<rparr>"
    by (auto simp: GC_start_world_attaching_def Let_def split: sum.splits)
  from start_dll_loop_flags[OF dll l] e show ?thesis by simp
qed

lemma started_thread_while_stopped_cas:
  "GC_win32_dll_threads s \<Longrightarrow>
   GC_started_thread_while_stopped s
     = (GC_attached_thread s, s\<lparr>GC_attached_thread := False\<rparr>)"
  by (cases "GC_attached_thread s")
     (simp_all add: GC_started_thread_while_stopped_def AO_compare_and_swap_release_def)

text \<open>
  When no thread attaches during them, the stop and the start above are \<open>GC_stop_world\<close>
  and \<open>GC_start_world\<close>.
\<close>

lemma drop_take_nth:
  "i < n \<Longrightarrow> i < length tbl \<Longrightarrow> drop i (take n tbl) = tbl ! i # drop (Suc i) (take n tbl)"
proof -
  assume a: "i < n" "i < length tbl"
  then have "i < length (take n tbl)" by simp
  from Cons_nth_drop_Suc[OF this] a show ?thesis by simp
qed

lemma table_update_parts:
  assumes "i < n" "i < length tbl"
  shows "drop (Suc i) (take n (tbl[i := q])) = drop (Suc i) (take n tbl)"
    "take (Suc i) (tbl[i := q]) = take i tbl @ [q]"
    "drop n (tbl[i := q]) = drop n tbl"
proof -
  from assms show "drop (Suc i) (take n (tbl[i := q])) = drop (Suc i) (take n tbl)"
    by (simp add: take_update_swap)
  from assms show "take (Suc i) (tbl[i := q]) = take i tbl @ [q]"
    by (simp add: take_Suc_conv_app_nth)
  from assms show "drop n (tbl[i := q]) = drop n tbl" by simp
qed

lemma stop_dll_loop_quiet:
  "i \<le> n \<Longrightarrow> n \<le> length (dll_thread_table s) \<Longrightarrow>
   stop_dll_loop pthreads ix att [] self_id i n s =
     (case stop_dll_slots pthreads att self_id (drop i (take n (dll_thread_table s))) (os s) of
        Inl e \<Rightarrow> Inl e
      | Inr (ps, st) \<Rightarrow>
          Inr (s\<lparr>dll_thread_table := take i (dll_thread_table s) @ ps @ drop n (dll_thread_table s),
                 os := st\<rparr>))"
proof (induction "n - i" arbitrary: i s)
  case 0
  then have "i = n" by simp
  with "0.prems" show ?case by (simp add: stop_dll_loop_done)
next
  case (Suc k)
  then have lt: "i < n" by simp
  from Suc.hyps(2) have k: "k = n - Suc i" by simp
  from lt have le: "Suc i \<le> n" by simp
  let ?tbl = "dll_thread_table s"
  let ?p = "?tbl ! i"
  from lt Suc.prems(2) have il: "i < length ?tbl" by simp
  have a: "attach_all ix (concat (take 1 [])) s = Inr s" by simp
  from lt il have dr: "drop i (take n ?tbl) = ?p # drop (Suc i) (take n ?tbl)"
    by (rule drop_take_nth)
  from il have tk: "take (Suc i) ?tbl = take i ?tbl @ [?p]"
    by (simp add: take_Suc_conv_app_nth)
  have upd: "drop (Suc i) (take n (?tbl[i := q])) = drop (Suc i) (take n ?tbl)"
    "take (Suc i) (?tbl[i := q]) = take i ?tbl @ [q]"
    "drop n (?tbl[i := q]) = drop n ?tbl" for q
    using il lt by (simp_all add: take_Suc_conv_app_nth drop_take)
  show ?case
  proof (cases "stack_end ?p \<noteq> 0 \<and> DO_BLOCKING \<notin> flags ?p \<and> thread_id ?p \<noteq> self_id")
    case False
    note sk = stop_dll_loop_skip[OF lt a False, of pthreads att]
    from Suc.hyps(1)[OF k le Suc.prems(2)] sk dr tk False show ?thesis
      by (cases "stop_dll_slots pthreads att self_id (drop (Suc i) (take n ?tbl)) (os s)")
         (auto split: prod.splits)
  next
    case True
    then have c: "stack_end ?p \<noteq> 0" "DO_BLOCKING \<notin> flags ?p" "thread_id ?p \<noteq> self_id"
      by simp_all
    note su = stop_dll_loop_suspends[OF lt a c, of pthreads att]
    show ?thesis
    proof (cases "GC_suspend pthreads (att (handle ?p)) ?p (os s)")
      case (Inl e)
      with su dr True show ?thesis by simp
    next
      case (Inr r)
      obtain out st' where r: "r = (out, st')" by (cases r) auto
      show ?thesis
      proof (cases out)
        case (Kept p')
        let ?s2 = "s\<lparr>dll_thread_table := ?tbl[i := p'], os := st'\<rparr>"
        have l2: "n \<le> length (dll_thread_table ?s2)" using Suc.prems(2) by simp
        from Suc.hyps(1)[OF k le l2] su Inr r Kept dr True upd[of p'] show ?thesis
          by (cases "stop_dll_slots pthreads att self_id (drop (Suc i) (take n ?tbl)) st'")
             (auto split: prod.splits)
      next
        case (Deleted p')
        let ?s2 = "s\<lparr>dll_thread_table := ?tbl[i := clear_dll_slot p'],
                      os := CloseHandle (handle p') st'\<rparr>"
        have l2: "n \<le> length (dll_thread_table ?s2)" using Suc.prems(2) by simp
        from Suc.hyps(1)[OF k le l2] su Inr r Deleted dr True upd[of "clear_dll_slot p'"]
        show ?thesis
          by (cases "stop_dll_slots pthreads att self_id (drop (Suc i) (take n ?tbl))
                       (CloseHandle (handle p') st')")
             (auto split: prod.splits)
      qed
    qed
  qed
qed


lemma start_dll_loop_quiet:
  "i \<le> n \<Longrightarrow> n \<le> length (dll_thread_table s) \<Longrightarrow>
   start_dll_loop resumes ix [] i n s =
     (case start_threads resumes (drop i (take n (dll_thread_table s))) (os s) of
        Inl e \<Rightarrow> Inl e
      | Inr (ps, st) \<Rightarrow>
          Inr (s\<lparr>dll_thread_table := take i (dll_thread_table s) @ ps @ drop n (dll_thread_table s),
                 os := st\<rparr>))"
proof (induction "n - i" arbitrary: i s)
  case 0
  then have "i = n" by simp
  with "0.prems" show ?case by (simp add: start_dll_loop_done)
next
  case (Suc k)
  then have lt: "i < n" by simp
  from Suc.hyps(2) have k: "k = n - Suc i" by simp
  from lt have le: "Suc i \<le> n" by simp
  let ?tbl = "dll_thread_table s"
  let ?p = "?tbl ! i"
  from lt Suc.prems(2) have il: "i < length ?tbl" by simp
  have a: "attach_all ix (concat (take 1 [])) s = Inr s" by simp
  from lt il have dr: "drop i (take n ?tbl) = ?p # drop (Suc i) (take n ?tbl)"
    by (rule drop_take_nth)
  from il have tk: "take (Suc i) ?tbl = take i ?tbl @ [?p]"
    by (simp add: take_Suc_conv_app_nth)
  note upd = table_update_parts[OF lt il]
  show ?case
  proof (cases "IS_SUSPENDED \<in> flags ?p")
    case False
    note sk = start_dll_loop_skip[OF lt a False, of resumes]
    from Suc.hyps(1)[OF k le Suc.prems(2)] sk dr tk False show ?thesis
      by (cases "start_threads resumes (drop (Suc i) (take n ?tbl)) (os s)")
         (auto split: prod.splits)
  next
    case True
    note re = start_dll_loop_resumes[OF lt a True, of resumes]
    show ?thesis
    proof (cases "resumes (handle ?p)")
      case False
      with re dr True show ?thesis by simp
    next
      case r: True
      let ?q = "?p\<lparr>flags := flags ?p - {IS_SUSPENDED}\<rparr>"
      let ?s2 = "s\<lparr>dll_thread_table := ?tbl[i := ?q], os := ResumeThread (handle ?p) (os s)\<rparr>"
      have l2: "n \<le> length (dll_thread_table ?s2)" using Suc.prems(2) by simp
      from Suc.hyps(1)[OF k le l2] re r dr True upd[of ?q] show ?thesis
        by (cases "start_threads resumes (drop (Suc i) (take n ?tbl))
                     (ResumeThread (handle ?p) (os s))")
           (auto split: prod.splits)
    qed
  qed
qed

lemma max_index_slots:
  "length (dll_thread_table s) = nat MAX_THREADS
     \<Longrightarrow> nat (GC_get_max_thread_index s + 1) \<le> length (dll_thread_table s)"
  by (auto simp: GC_get_max_thread_index_def MAX_THREADS_def Let_def nat_le_iff)

lemma GC_stop_world_attaching_quiet:
  assumes "GC_win32_dll_threads s \<longrightarrow> length (dll_thread_table s) = nat MAX_THREADS"
  shows "GC_stop_world_attaching pthreads ix att [] [] self_id s
           = GC_stop_world pthreads ix att self_id s"
proof (cases "GC_win32_dll_threads s")
  case False
  then show ?thesis by (simp add: GC_stop_world_attaching_def)
next
  case True
  let ?s3 = "s\<lparr>GC_please_stop := True, GC_attached_thread := False\<rparr>"
  from True assms have "length (dll_thread_table ?s3) = nat MAX_THREADS" by simp
  from max_index_slots[OF this] have
    n: "nat (GC_get_max_thread_index ?s3 + 1) \<le> length (dll_thread_table ?s3)" .
  from stop_dll_loop_quiet[OF _ n, of 0 pthreads ix att self_id] True show ?thesis
    by (simp add: GC_stop_world_attaching_def GC_stop_world_def Let_def split: sum.splits)
qed

lemma GC_start_world_attaching_quiet:
  assumes "GC_win32_dll_threads s \<longrightarrow> length (dll_thread_table s) = nat MAX_THREADS"
  shows "GC_start_world_attaching resumes ix [] s = GC_start_world resumes s"
proof (cases "GC_win32_dll_threads s")
  case False
  then show ?thesis by (simp add: GC_start_world_attaching_def)
next
  case True
  with assms have "length (dll_thread_table s) = nat MAX_THREADS" by simp
  from max_index_slots[OF this] have
    n: "nat (GC_get_max_thread_index s + 1) \<le> length (dll_thread_table s)" .
  from start_dll_loop_quiet[OF _ n, of 0 resumes ix] True show ?thesis
    by (simp add: GC_start_world_attaching_def GC_start_world_def Let_def split: sum.splits)
qed

text \<open>
  C6. In discovery mode (\<open>GC_win32_dll_threads\<close> set) a thread attaches without the
  lock, so also while \<open>GC_stop_world\<close> or \<open>GC_start_world\<close> runs: a stop is given the
  threads that attach between its setting of \<open>GC_please_stop\<close> and its reset of the
  signal, and those that attach before each slot its loop visits and after the loop; a
  start is given those that attach before each slot it visits and after its loop, before
  it clears \<open>GC_please_stop\<close>. Over any sequence of attaching threads, stops, starts and
  questions that runs without an abort, each call of \<open>GC_started_thread_while_stopped\<close>
  returns true exactly when a thread has registered while \<open>GC_please_stop\<close> was set
  since the last reset of the signal. The signal is reset by each \<open>GC_stop_world\<close> at its
  start, after it has set \<open>GC_please_stop\<close> and before its loop over the threads: a thread
  that attaches inside the loop of the stop, or inside the start before \<open>GC_please_stop\<close>
  is cleared, is reported by the next question, one that attaches before the reset is
  not. The signal is also reset by each true answer: the answer and the clearing are the
  one compare-and-swap \<open>AO_compare_and_swap_release\<close>. The mode never changes.
\<close>

theorem attached_thread_signal:
  assumes "GC_win32_dll_threads s"
    and "run_calls pthreads THREAD_TABLE_INDEX calls s = Inr (answers, s')"
  shows "answers = expected_answers (GC_please_stop s) (GC_attached_thread s) calls
         \<and> GC_win32_dll_threads s'"
  using assms
proof (induction calls arbitrary: s answers s')
  case Nil
  then show ?case by simp
next
  case (Cons c cs)
  show ?case
  proof (cases c)
    case (Attach dup sb tid)
    with Cons.prems obtain me s1 where
      r: "GC_register_my_thread_inner THREAD_TABLE_INDEX True dup sb tid s = Inr (me, s1)"
      and rest: "run_calls pthreads THREAD_TABLE_INDEX cs s1 = Inr (answers, s')"
      by (auto split: sum.splits)
    from register_inner_globals[OF r] Cons.prems(1)
    have "GC_win32_dll_threads s1" "GC_please_stop s1 = GC_please_stop s"
      "GC_attached_thread s1 = (GC_attached_thread s \<or> GC_please_stop s)" by auto
    with Cons.IH[OF _ rest] Attach show ?thesis by simp
  next
    case (Stop_world att before_reset in_loop self_id)
    with Cons.prems obtain s1 where
      r: "GC_stop_world_attaching pthreads THREAD_TABLE_INDEX att before_reset in_loop self_id s = Inr s1"
      and rest: "run_calls pthreads THREAD_TABLE_INDEX cs s1 = Inr (answers, s')"
      by (auto split: sum.splits)
    from stop_world_attaching_signal[OF Cons.prems(1) r]
    have "GC_win32_dll_threads s1" "GC_please_stop s1"
      "GC_attached_thread s1 = (concat in_loop \<noteq> [])" by auto
    with Cons.IH[OF _ rest] Stop_world show ?thesis by simp
  next
    case (Start_world resumes in_loop)
    with Cons.prems obtain s1 where
      r: "GC_start_world_attaching resumes THREAD_TABLE_INDEX in_loop s = Inr s1"
      and rest: "run_calls pthreads THREAD_TABLE_INDEX cs s1 = Inr (answers, s')"
      by (auto split: sum.splits)
    from start_world_attaching_signal[OF Cons.prems(1) r]
    have "GC_win32_dll_threads s1" "\<not> GC_please_stop s1"
      "GC_attached_thread s1
         = (GC_attached_thread s \<or> (GC_please_stop s \<and> concat in_loop \<noteq> []))" by auto
    with Cons.IH[OF _ rest] Start_world show ?thesis by simp
  next
    case Ask
    from started_thread_while_stopped_cas[OF Cons.prems(1)] Cons.prems Ask obtain bs where
      rest: "run_calls pthreads THREAD_TABLE_INDEX cs (s\<lparr>GC_attached_thread := False\<rparr>) = Inr (bs, s')"
      and ans: "answers = GC_attached_thread s # bs"
      by (auto split: sum.splits)
    from Cons.prems(1) have "GC_win32_dll_threads (s\<lparr>GC_attached_thread := False\<rparr>)" by simp
    from Cons.IH[OF this rest] Ask ans show ?thesis by simp
  qed
qed

text \<open>
  The main thread stops the world twice. In the first stop thread 5 attaches before the
  reset and thread 3 inside the loop: the first question is answered true, the second
  false. Thread 4 attaches inside the start: the next question is answered true. In the
  second stop thread 6 attaches before the reset and nobody after it: the answer is false.
\<close>

theorem attached_thread_signal_example:
  "GC_win32_dll_threads (main_registered True)
   \<and> (\<exists>s'. run_calls False example_index
          [Stop_world stale_attempts [(Some 15, \<lparr>mem_base = 0xC000\<rparr>, 5)]
             [[], [(Some 13, \<lparr>mem_base = 0xA000\<rparr>, 3)]] 1,
           Ask, Ask,
           Start_world (\<lambda>h. True) [[(Some 14, \<lparr>mem_base = 0xB000\<rparr>, 4)]],
           Ask,
           Stop_world stale_attempts [(Some 16, \<lparr>mem_base = 0xD000\<rparr>, 6)] [] 1,
           Ask]
          (main_registered True) = Inr ([True, False, True, False], s'))"
proof -
  let ?calls = "[Stop_world stale_attempts [(Some 15, \<lparr>mem_base = 0xC000\<rparr>, 5)]
             [[], [(Some 13, \<lparr>mem_base = 0xA000\<rparr>, 3)]] 1,
           Ask, Ask,
           Start_world (\<lambda>h. True) [[(Some 14, \<lparr>mem_base = 0xB000\<rparr>, 4)]],
           Ask,
           Stop_world stale_attempts [(Some 16, \<lparr>mem_base = 0xD000\<rparr>, 6)] [] 1,
           Ask]"
  have d: "GC_win32_dll_threads (main_registered True)"
    by (simp add: main_registered_dll initial_state_def)
  have "\<exists>answers s'. run_calls False example_index ?calls (main_registered True) = Inr (answers, s')"
    by (simp add: main_registered_dll initial_state_def GC_stop_world_attaching_def
        GC_start_world_attaching_def stop_dll_loop_step stop_dll_loop_done
        start_dll_loop_step start_dll_loop_done
        GC_get_max_thread_index_def MAX_THREADS_def GC_register_my_thread_inner_def
        GC_started_thread_while_stopped_def AO_compare_and_swap_release_def
        GC_record_stack_base_def
        deref_def assign_def Let_def acquire_slot_free acquire_slot_busy
        raise_max_thread_index_max zero_thread_def GC_suspend_def suspend_loop_retry
        suspend_loop_captured transient_def stale_attempts_def MAX_SUSPEND_THREAD_RETRIES_def)
  then obtain answers s' where
    r: "run_calls False example_index ?calls (main_registered True) = Inr (answers, s')"
    by blast
  from attached_thread_signal[OF d r]
  have "answers = [True, False, True, False]"
    by (simp add: main_registered_dll initial_state_def)
  with r d show ?thesis by blast
qed


subsection \<open>Helper threads that do not start\<close>

text \<open>
  C8, as amended. Let \<open>available_markers_m1\<close> helpers be wanted, none running, and let
  helper \<open>i\<close> be the first that does not start. Then \<open>GC_start_mark_threads_inner\<close> returns
  (it does not abort) with \<open>GC_markers_m1 = i\<close>; the Win32 variant has closed the events
  it created for the helpers \<open>i .. available_markers_m1 - 1\<close>, last first, and when
  \<open>i = 0\<close> it has also closed \<open>mark_cv\<close>, \<open>builder_cv\<close> and \<open>mark_mutex_event\<close>, and
  \<open>GC_parallel\<close> is off on return. \<open>available_markers_m1\<close> is left as it was: nothing in the
  function keeps a later call from starting helpers. The GC\_PTHREADS\_PARAMARK variant
  shrinks \<open>GC_markers_m1\<close> to \<open>i\<close> in the same way and creates and closes no event.
\<close>

theorem GC_start_mark_threads_inner_shrinks:
  assumes avail: "0 < available_markers_m1 m"
      and room: "available_markers_m1 m \<le> int (length (GC_marker_cv m))"
      and idle: "\<not> GC_parallel m"
      and created: "\<forall>j. int j < available_markers_m1 m \<longrightarrow> create_event j \<noteq> 0"
      and started: "\<forall>j. j < i \<longrightarrow> begin_thread j"
      and failed: "\<not> begin_thread i"
      and i: "int i < available_markers_m1 m"
  shows "(\<exists>m'. GC_start_mark_threads_inner create_event begin_thread m = Inr m'
           \<and> GC_markers_m1 m' = int i
           \<and> closed_events m' =
               closed_events m @ map create_event (rev [i ..< nat (available_markers_m1 m)])
               @ (if i = 0 then [mark_cv m, builder_cv m, mark_mutex_event m] else [])
           \<and> (if i = 0 then \<not> GC_parallel m' else GC_parallel m')
           \<and> available_markers_m1 m' = available_markers_m1 m)
       \<and> (\<exists>m'. GC_start_mark_threads_inner_pthreads (True, True, True) True begin_thread m = Inr m'
           \<and> GC_markers_m1 m' = int i
           \<and> closed_events m' = closed_events m
           \<and> available_markers_m1 m' = available_markers_m1 m)"
proof
  let ?n = "nat (available_markers_m1 m)"
  let ?m0 = "m\<lparr>GC_markers_m1 := available_markers_m1 m\<rparr>"
  from created have "\<forall>j. 0 \<le> j \<and> int j < GC_markers_m1 ?m0 \<longrightarrow> create_event j \<noteq> 0" by simp
  from create_marker_events_ok[OF this] obtain cv where
    c1: "create_marker_events create_event 0 ?m0 = Inr (?m0\<lparr>GC_marker_cv := cv\<rparr>)"
    and c2: "length cv = length (GC_marker_cv m)"
    and c3: "\<forall>j < length cv. cv ! j = (if int j < available_markers_m1 m then create_event j else GC_marker_cv m ! j)"
    by auto
  let ?m1 = "?m0\<lparr>GC_marker_cv := cv\<rparr>"
  from started have "\<forall>j. 0 \<le> j \<and> j < i \<longrightarrow> begin_thread j" by simp
  from start_marker_threads_fails[OF this _ _ failed, of ?m1] i obtain l where
    s1: "start_marker_threads begin_thread 0 ?m1 = (i, ?m1\<lparr>marker_last_stack_min := l\<rparr>)"
    by auto
  let ?m2 = "?m1\<lparr>marker_last_stack_min := l\<rparr>"
  have g: "GC_markers_m1 ?m2 = int ?n" using avail by simp
  have le: "i \<le> ?n" using i by simp
  have r1: "release_unused_events i ?m2 =
      ?m2\<lparr>GC_markers_m1 := int i,
           closed_events := closed_events ?m2 @ map (\<lambda>j. GC_marker_cv ?m2 ! j) (rev [i ..< ?n])\<rparr>"
    by (rule release_unused_events_eq[OF g le])
  have cvs: "map (\<lambda>j. cv ! j) (rev [i ..< ?n]) = map create_event (rev [i ..< ?n])"
  proof (rule map_cong[OF refl])
    fix j assume "j \<in> set (rev [i ..< ?n])"
    then have "j < ?n" by simp
    with room c2 c3 avail show "cv ! j = create_event j" by auto
  qed
  show "\<exists>m'. GC_start_mark_threads_inner create_event begin_thread m = Inr m'
           \<and> GC_markers_m1 m' = int i
           \<and> closed_events m' =
               closed_events m @ map create_event (rev [i ..< nat (available_markers_m1 m)])
               @ (if i = 0 then [mark_cv m, builder_cv m, mark_mutex_event m] else [])
           \<and> (if i = 0 then \<not> GC_parallel m' else GC_parallel m')
           \<and> available_markers_m1 m' = available_markers_m1 m"
  proof (cases "i = 0")
    case True
    with avail idle c1 s1 r1 cvs show ?thesis
      by (simp add: GC_start_mark_threads_inner_def GC_parallel_def Let_def)
  next
    case False
    with avail idle c1 s1 r1 cvs show ?thesis
      by (simp add: GC_start_mark_threads_inner_def GC_parallel_def Let_def)
  qed
next
  let ?m0 = "m\<lparr>GC_markers_m1 := available_markers_m1 m\<rparr>"
  from started have "\<forall>j. 0 \<le> j \<and> j < i \<longrightarrow> begin_thread j" by simp
  from create_marker_pthreads_fails[OF this _ _ failed, of ?m0] i obtain l' where
    "create_marker_pthreads begin_thread 0 ?m0 = ?m0\<lparr>marker_last_stack_min := l', GC_markers_m1 := int i\<rparr>"
    by auto
  with avail idle
  show "\<exists>m'. GC_start_mark_threads_inner_pthreads (True, True, True) True begin_thread m = Inr m'
           \<and> GC_markers_m1 m' = int i
           \<and> closed_events m' = closed_events m
           \<and> available_markers_m1 m' = available_markers_m1 m"
    by (simp add: GC_start_mark_threads_inner_pthreads_def)
qed

theorem GC_start_mark_threads_inner_shrinks_example:
  "(\<exists>m'. GC_start_mark_threads_inner (\<lambda>j. if j = 0 then 200 else 201) (\<lambda>j. j < 1) example_pool
            = Inr m'
          \<and> GC_markers_m1 m' = 1 \<and> closed_events m' = [201] \<and> GC_parallel m')
   \<and> (\<exists>m'. GC_start_mark_threads_inner (\<lambda>j. if j = 0 then 200 else 201) (\<lambda>j. False) example_pool
            = Inr m'
          \<and> GC_markers_m1 m' = 0 \<and> closed_events m' = [201, 200, 101, 102, 103]
          \<and> \<not> GC_parallel m')"
proof -
  let ?ce = "\<lambda>j::nat. if j = 0 then 200 else (201::HANDLE)"
  have up: "[Suc 0 ..< 2] = [Suc 0]" "[0 ..< 2] = [0, Suc 0]"
    by (simp_all add: upt_rec)
  have h1: "0 < available_markers_m1 example_pool"
    and h2: "available_markers_m1 example_pool \<le> int (length (GC_marker_cv example_pool))"
    and h3: "\<not> GC_parallel example_pool"
    and h4: "\<forall>j. int j < available_markers_m1 example_pool \<longrightarrow> ?ce j \<noteq> 0"
    by (simp_all add: example_pool_def GC_parallel_def)
  have s1: "\<forall>j. j < 1 \<longrightarrow> (\<lambda>j::nat. j < 1) j" and f1: "\<not> (\<lambda>j::nat. j < 1) 1"
    and i1: "int 1 < available_markers_m1 example_pool"
    by (simp_all add: example_pool_def)
  have s0: "\<forall>j::nat. j < 0 \<longrightarrow> (\<lambda>j. False) j" and f0: "\<not> (\<lambda>j::nat. False) 0"
    and i0: "int 0 < available_markers_m1 example_pool"
    by (simp_all add: example_pool_def)
  from GC_start_mark_threads_inner_shrinks[OF h1 h2 h3 h4 s1 f1 i1]
  have a: "\<exists>m'. GC_start_mark_threads_inner ?ce (\<lambda>j. j < 1) example_pool = Inr m'
          \<and> GC_markers_m1 m' = 1 \<and> closed_events m' = [201] \<and> GC_parallel m'"
    by (auto simp: example_pool_def GC_parallel_def up)
  from GC_start_mark_threads_inner_shrinks[OF h1 h2 h3 h4 s0 f0 i0]
  have b: "\<exists>m'. GC_start_mark_threads_inner ?ce (\<lambda>j. False) example_pool = Inr m'
          \<and> GC_markers_m1 m' = 0 \<and> closed_events m' = [201, 200, 101, 102, 103]
          \<and> \<not> GC_parallel m'"
    by (auto simp: example_pool_def GC_parallel_def up)
  from a b show ?thesis by blast
qed

text \<open>
  The claim as stated fails where it says that parallel marking stays disabled for the
  life of the process: after a call in which no helper started, a second call in which
  the helpers do start turns \<open>GC_parallel\<close> on, in both variants.
\<close>

theorem GC_start_mark_threads_inner_counterexample:
  "(\<exists>m1 m2. GC_start_mark_threads_inner (\<lambda>j. if j = 0 then 200 else 201) (\<lambda>j. False) example_pool
               = Inr m1
            \<and> \<not> GC_parallel m1
            \<and> GC_start_mark_threads_inner (\<lambda>j. if j = 0 then 300 else 301) (\<lambda>j. True) m1 = Inr m2
            \<and> GC_parallel m2 \<and> GC_markers_m1 m2 = 2)
   \<and> (\<exists>m1 m2. GC_start_mark_threads_inner_pthreads (True, True, True) True (\<lambda>j. False) example_pool
               = Inr m1
            \<and> \<not> GC_parallel m1
            \<and> GC_start_mark_threads_inner_pthreads (True, True, True) True (\<lambda>j. True) m1 = Inr m2
            \<and> GC_parallel m2 \<and> GC_markers_m1 m2 = 2)"
proof -
  have a: "GC_start_mark_threads_inner (\<lambda>j. if j = 0 then 200 else 201) (\<lambda>j. False) example_pool
     = Inr (example_pool\<lparr>GC_marker_cv := [200, 201, 0, 0, 0, 0, 0, 0, 0, 0, 0, 0, 0, 0, 0],
              marker_last_stack_min := [ADDR_LIMIT, 0, 0, 0, 0, 0, 0, 0, 0, 0, 0, 0, 0, 0, 0],
              closed_events := [201, 200, 101, 102, 103]\<rparr>)"
    by (simp add: GC_start_mark_threads_inner_def example_pool_def GC_parallel_def
        create_marker_events.simps start_marker_threads.simps release_unused_events.simps Let_def)
  have b: "GC_start_mark_threads_inner (\<lambda>j. if j = 0 then 300 else 301) (\<lambda>j. True)
     (example_pool\<lparr>GC_marker_cv := [200, 201, 0, 0, 0, 0, 0, 0, 0, 0, 0, 0, 0, 0, 0],
              marker_last_stack_min := [ADDR_LIMIT, 0, 0, 0, 0, 0, 0, 0, 0, 0, 0, 0, 0, 0, 0],
              closed_events := [201, 200, 101, 102, 103]\<rparr>)
     = Inr (example_pool\<lparr>GC_markers_m1 := 2,
              GC_marker_cv := [300, 301, 0, 0, 0, 0, 0, 0, 0, 0, 0, 0, 0, 0, 0],
              marker_last_stack_min := [ADDR_LIMIT, ADDR_LIMIT, 0, 0, 0, 0, 0, 0, 0, 0, 0, 0, 0, 0, 0],
              closed_events := [201, 200, 101, 102, 103]\<rparr>)"
    by (simp add: GC_start_mark_threads_inner_def example_pool_def GC_parallel_def
        create_marker_events.simps start_marker_threads.simps release_unused_events.simps Let_def)
  have c: "GC_start_mark_threads_inner_pthreads (True, True, True) True (\<lambda>j. False) example_pool
     = Inr (example_pool\<lparr>marker_last_stack_min := [ADDR_LIMIT, 0, 0, 0, 0, 0, 0, 0, 0, 0, 0, 0, 0, 0, 0]\<rparr>)"
    by (simp add: GC_start_mark_threads_inner_pthreads_def example_pool_def GC_parallel_def
        create_marker_pthreads.simps Let_def)
  have d: "GC_start_mark_threads_inner_pthreads (True, True, True) True (\<lambda>j. True)
      (example_pool\<lparr>marker_last_stack_min := [ADDR_LIMIT, 0, 0, 0, 0, 0, 0, 0, 0, 0, 0, 0, 0, 0, 0]\<rparr>)
     = Inr (example_pool\<lparr>GC_markers_m1 := 2,
              marker_last_stack_min := [ADDR_LIMIT, ADDR_LIMIT, 0, 0, 0, 0, 0, 0, 0, 0, 0, 0, 0, 0, 0]\<rparr>)"
    by (simp add: GC_start_mark_threads_inner_pthreads_def example_pool_def GC_parallel_def
        create_marker_pthreads.simps Let_def)
  have e: "\<not> GC_parallel (example_pool\<lparr>GC_marker_cv := [200, 201, 0, 0, 0, 0, 0, 0, 0, 0, 0, 0, 0, 0, 0],
              marker_last_stack_min := [ADDR_LIMIT, 0, 0, 0, 0, 0, 0, 0, 0, 0, 0, 0, 0, 0, 0],
              closed_events := [201, 200, 101, 102, 103]\<rparr>)"
      "\<not> GC_parallel (example_pool\<lparr>marker_last_stack_min := [ADDR_LIMIT, 0, 0, 0, 0, 0, 0, 0, 0, 0, 0, 0, 0, 0, 0]\<rparr>)"
    by (simp_all add: GC_parallel_def example_pool_def)
  from a b c d e show ?thesis
    by (simp add: GC_parallel_def)
qed

subsection \<open>The range pushed for a thread\<close>

lemma not_below_ADDR_LIMIT: "last_min = ADDR_LIMIT \<Longrightarrow> last_min \<le> sp \<Longrightarrow> sp < (b::ptr_t) \<Longrightarrow> False"
proof -
  assume a: "last_min = ADDR_LIMIT" "last_min \<le> sp" "sp < b"
  then have "sp = - 1" by (simp add: ADDR_LIMIT_def word_order.extremum_unique)
  with a show False by (simp add: word_order.extremum_strict)
qed

lemma read_context_sp_fields:
  assumes "read_context_sp env thread = Some (sp, th)"
  shows "thread_id th = thread_id thread" "flags th = flags thread" "handle th = handle thread"
    "stack_end th = stack_end thread" "last_stack_min th = last_stack_min thread"
    "traced_stack_sect th = traced_stack_sect thread" "stack_ptr th = stack_ptr thread"
    "context_sp th = context_sp thread" "in_use th = in_use thread"
  using assms by (auto simp: read_context_sp_def split: if_splits option.splits)

lemma find_stack_min_cached:
  assumes "last_stack_min th \<le> sp" "sp < stack_end th"
  shows "\<exists>th'. find_stack_min env is_self sp th sc = Some (sp, th', sc)
           \<and> stack_end th' = stack_end th \<and> traced_stack_sect th' = traced_stack_sect th
           \<and> last_stack_min th' \<le> sp
           \<and> thread_id th' = thread_id th \<and> flags th' = flags th \<and> handle th' = handle th
           \<and> stack_ptr th' = stack_ptr th \<and> context_sp th' = context_sp th
           \<and> context_regs th' = context_regs th \<and> in_use th' = in_use th"
proof -
  from assms have n: "last_stack_min th \<noteq> ADDR_LIMIT"
    using not_below_ADDR_LIMIT by blast
  show ?thesis
  proof (cases "traced_stack_sect th \<noteq> 0 \<and> last_stack_min th > traced_stack_sect th")
    case True
    with assms have "traced_stack_sect th \<le> sp" by (meson less_le_trans less_imp_le)
    with True n assms show ?thesis by (simp add: find_stack_min_def Let_def)
  next
    case False
    with n assms show ?thesis by (auto simp add: find_stack_min_def Let_def)
  qed
qed

lemma find_stack_min_cases:
  assumes r: "find_stack_min env is_self sp th sc = Some (m, th', sc')"
  shows "stack_end th' = stack_end th \<and> traced_stack_sect th' = traced_stack_sect th
           \<and> thread_id th' = thread_id th \<and> flags th' = flags th \<and> handle th' = handle th
           \<and> stack_ptr th' = stack_ptr th \<and> context_sp th' = context_sp th
           \<and> context_regs th' = context_regs th \<and> in_use th' = in_use th
           \<and> ((m = sp \<and> sp < stack_end th \<and> last_stack_min th' \<le> sp) \<or> m = last_stack_min th')"
proof (cases "last_stack_min th = ADDR_LIMIT")
  case True
  with r have "th' = th\<lparr>last_stack_min := m\<rparr>"
    by (simp add: find_stack_min_def split: option.splits prod.splits)
  then show ?thesis by simp
next
  case False
  define th0 where "th0 = (if traced_stack_sect th \<noteq> 0 \<and> last_stack_min th > traced_stack_sect th
                   then th\<lparr>last_stack_min := traced_stack_sect th\<rparr> else th)"
  have f0: "stack_end th0 = stack_end th" "traced_stack_sect th0 = traced_stack_sect th"
    "thread_id th0 = thread_id th" "flags th0 = flags th" "handle th0 = handle th"
    "stack_ptr th0 = stack_ptr th" "context_sp th0 = context_sp th"
    "context_regs th0 = context_regs th" "in_use th0 = in_use th"
    by (simp_all add: th0_def)
  show ?thesis
  proof (cases "sp < stack_end th0 \<and> sp \<ge> last_stack_min th0")
    case True
    with r False have "m = sp" "th' = th0"
      by (simp_all add: find_stack_min_def Let_def th0_def[symmetric])
    with True f0 show ?thesis by simp
  next
    case nc: False
    obtain b sc1 where mb: "may_be_in_stack env
         (if is_self \<and> sp < last_stack_min th0 then sp else last_stack_min th0) sc = (b, sc1)"
      by (cases "may_be_in_stack env
         (if is_self \<and> sp < last_stack_min th0 then sp else last_stack_min th0) sc") auto
    from r False nc mb have "th' = th0\<lparr>last_stack_min := m\<rparr>"
      by (cases b)
         (auto simp: find_stack_min_def Let_def th0_def[symmetric] split: option.splits if_splits)
    with f0 show ?thesis by simp
  qed
qed

lemma push_stack_for_cached:
  assumes sp: "observed_sp env self_id thread = Some sp"
      and lo: "last_stack_min thread \<le> sp"
      and hi: "sp < stack_end thread"
  shows "\<exists>thread' sc'.
           GC_push_stack_for env thread self_id found_me sc
             = Some (stack_end thread - sp, thread', found_me \<or> thread_id thread = self_id, sc')
           \<and> last (events sc')
               = Push_all_stack_sections sp (stack_end thread) (traced_stack_sect thread)
           \<and> queried sc' = queried sc \<and> last_address sc' = last_address sc
           \<and> last_info sc' = last_info sc"
proof (cases "thread_id thread = self_id")
  case True
  with sp have s: "sp = GC_approx_sp env" by (simp add: observed_sp_def)
  from find_stack_min_cached[OF lo hi, of env True sc] obtain th' where
    "find_stack_min env True sp thread sc = Some (sp, th', sc)" "stack_end th' = stack_end thread"
    "traced_stack_sect th' = traced_stack_sect thread" by blast
  with True s hi show ?thesis
    by (simp add: GC_push_stack_for_def push_stack_range_def)
next
  case False
  note nself = this
  show ?thesis
  proof (cases "DO_BLOCKING \<in> flags thread")
    case True
    with sp nself have s: "sp = stack_ptr thread" by (simp add: observed_sp_def)
    from find_stack_min_cached[OF lo hi, of env False sc] obtain th' where
      "find_stack_min env False sp thread sc = Some (sp, th', sc)" "stack_end th' = stack_end thread"
      "traced_stack_sect th' = traced_stack_sect thread" by blast
    with True nself s hi show ?thesis
      by (simp add: GC_push_stack_for_def push_stack_range_def)
  next
    case False
    with sp nself obtain th where r: "read_context_sp env thread = Some (sp, th)"
      by (auto simp: observed_sp_def)
    note f = read_context_sp_fields[OF r]
    let ?sc1 = "sc\<lparr>events := events sc @ [Push_many_regs (context_regs th)]\<rparr>"
    from lo hi f have "last_stack_min th \<le> sp" "sp < stack_end th" by simp_all
    from find_stack_min_cached[OF this, of env False ?sc1] obtain th' where
      "find_stack_min env False sp th ?sc1 = Some (sp, th', ?sc1)" "stack_end th' = stack_end th"
      "traced_stack_sect th' = traced_stack_sect th" by blast
    with False nself r f hi show ?thesis
      by (simp add: GC_push_stack_for_def push_stack_range_def)
  qed
qed

lemma push_stack_for_after_sp:
  assumes call: "(case find_stack_min env is_self sp th sc0 of
             None \<Rightarrow> None
           | Some (stack_min, th', sc2) \<Rightarrow>
               Some (stack_end th' - sp, th', found,
                     sc2\<lparr>events := events sc2 @ push_stack_range env is_self sp stack_min th'\<rparr>))
           = Some (sz, th1, f1, sc1)"
  shows "sz = stack_end th - sp \<and> f1 = found
         \<and> stack_end th1 = stack_end th \<and> traced_stack_sect th1 = traced_stack_sect th
         \<and> thread_id th1 = thread_id th \<and> flags th1 = flags th \<and> handle th1 = handle th
         \<and> stack_ptr th1 = stack_ptr th \<and> context_sp th1 = context_sp th
         \<and> in_use th1 = in_use th
         \<and> (\<exists>m pre.
               ((m = sp \<and> sp < stack_end th \<and> last_stack_min th1 \<le> sp) \<or> m = last_stack_min th1)
               \<and> events sc1 = pre @ push_stack_range env is_self sp m th1)"
proof (cases "find_stack_min env is_self sp th sc0")
  case None
  with call show ?thesis by simp
next
  case (Some r)
  obtain m th' sc2 where r: "r = (m, th', sc2)" by (cases r) auto
  with Some call have e: "sz = stack_end th' - sp" "th1 = th'" "f1 = found"
    "sc1 = sc2\<lparr>events := events sc2 @ push_stack_range env is_self sp m th'\<rparr>"
    by auto
  from Some r have fs: "find_stack_min env is_self sp th sc0 = Some (m, th', sc2)" by simp
  from find_stack_min_cases[OF fs] e show ?thesis by auto
qed

lemma push_stack_for_decompose:
  assumes call: "GC_push_stack_for env thread self_id found_me sc = Some (sz, th1, f1, sc1)"
      and sp: "observed_sp env self_id thread = Some sp"
  shows "sz = stack_end thread - sp \<and> f1 = (found_me \<or> thread_id thread = self_id)
         \<and> stack_end th1 = stack_end thread \<and> traced_stack_sect th1 = traced_stack_sect thread
         \<and> thread_id th1 = thread_id thread \<and> flags th1 = flags thread \<and> handle th1 = handle thread
         \<and> stack_ptr th1 = stack_ptr thread \<and> context_sp th1 = context_sp thread
         \<and> in_use th1 = in_use thread
         \<and> (\<exists>m is_self pre.
               ((m = sp \<and> sp < stack_end thread \<and> last_stack_min th1 \<le> sp) \<or> m = last_stack_min th1)
               \<and> events sc1 = pre @ push_stack_range env is_self sp m th1)"
proof (cases "thread_id thread = self_id")
  case True
  with sp have s: "sp = GC_approx_sp env" by (simp add: observed_sp_def)
  from call True have "(case find_stack_min env True (GC_approx_sp env) thread sc of
             None \<Rightarrow> None
           | Some (stack_min, th', sc2) \<Rightarrow>
               Some (stack_end th' - GC_approx_sp env, th', True,
                     sc2\<lparr>events := events sc2
                        @ push_stack_range env True (GC_approx_sp env) stack_min th'\<rparr>))
           = Some (sz, th1, f1, sc1)"
    by (simp add: GC_push_stack_for_def)
  from push_stack_for_after_sp[OF this] True show ?thesis unfolding s by blast
next
  case False
  note nself = this
  show ?thesis
  proof (cases "DO_BLOCKING \<in> flags thread")
    case True
    with sp nself have s: "sp = stack_ptr thread" by (simp add: observed_sp_def)
    from call True nself have "(case find_stack_min env False (stack_ptr thread) thread sc of
             None \<Rightarrow> None
           | Some (stack_min, th', sc2) \<Rightarrow>
               Some (stack_end th' - stack_ptr thread, th', found_me,
                     sc2\<lparr>events := events sc2
                        @ push_stack_range env False (stack_ptr thread) stack_min th'\<rparr>))
           = Some (sz, th1, f1, sc1)"
      by (simp add: GC_push_stack_for_def)
    from push_stack_for_after_sp[OF this] nself show ?thesis unfolding s by blast
  next
    case False
    with sp nself obtain th where rc: "read_context_sp env thread = Some (sp, th)"
      by (auto simp: observed_sp_def)
    note f = read_context_sp_fields[OF rc]
    let ?sc0 = "sc\<lparr>events := events sc @ [Push_many_regs (context_regs th)]\<rparr>"
    from call False nself rc have "(case find_stack_min env False sp th ?sc0 of
             None \<Rightarrow> None
           | Some (stack_min, th', sc2) \<Rightarrow>
               Some (stack_end th' - sp, th', found_me,
                     sc2\<lparr>events := events sc2 @ push_stack_range env False sp stack_min th'\<rparr>))
           = Some (sz, th1, f1, sc1)"
      by (simp add: GC_push_stack_for_def)
    from push_stack_for_after_sp[OF this] nself f show ?thesis by (simp, blast)
  qed
qed

lemma observed_sp_same:
  assumes "thread_id th1 = thread_id thread" "flags th1 = flags thread" "handle th1 = handle thread"
    "stack_ptr th1 = stack_ptr thread" "context_sp th1 = context_sp thread"
  shows "observed_sp env self_id th1 = observed_sp env self_id thread"
  using assms by (simp add: observed_sp_def read_context_sp_def split: option.splits)


lemma probe_down_stop:
  "\<not> stack_page (memory_map env (BaseAddress (last_info sc) - 1))
   \<Longrightarrow> probe_down env sc
       = Some (BaseAddress (last_info sc), VirtualQuery env (BaseAddress (last_info sc) - 1) sc)"
  by (subst probe_down.simps) (simp add: VirtualQuery_def Let_def)

lemma probe_down_step:
  "stack_page (memory_map env (BaseAddress (last_info sc) - 1))
   \<Longrightarrow> probe_down env sc = probe_down env (VirtualQuery env (BaseAddress (last_info sc) - 1) sc)"
  by (subst probe_down.simps) (simp add: VirtualQuery_def Let_def)

lemma example_pages:
  "stack_page (example_memory 0x4FF0)" "stack_page (example_memory 0x3000)"
  "\<not> stack_page (example_memory 0x2FFF)"
  "BaseAddress (example_memory 0x4FF0) = 0x3000" "BaseAddress (example_memory 0x3000) = 0x3000"
  by (simp_all add: example_memory_def stack_page_def PAGE_READWRITE_def PAGE_GUARD_def)

lemma first_call_guard_page:
  "GC_push_stack_for example_env (suspended_thread 0x2FF8 ADDR_LIMIT) 1 False initial_scan_state
     = Some (0x1FF8, suspended_thread 0x2FF8 0x3000, False,
             \<lparr>last_address = 0x2FFF, last_info = example_memory 0x2FFF,
              queried = [0x4FF0, 0x2FFF],
              events = [Push_many_regs (replicate 15 0), Push_all_stack 0x3000 0x4FF0]\<rparr>)"
  by (simp add: GC_push_stack_for_def suspended_thread_def zero_thread_def read_context_sp_def
      find_stack_min_def GC_get_stack_min_def example_env_def initial_scan_state_def
      VirtualQuery_def probe_down_stop example_pages push_stack_range_def ADDR_LIMIT_def)

lemma second_call_guard_page:
  "GC_push_stack_for example_env (suspended_thread 0x2FF8 0x3000) 1 False
         \<lparr>last_address = 0x2FFF, last_info = example_memory 0x2FFF,
              queried = [0x4FF0, 0x2FFF],
              events = [Push_many_regs (replicate 15 0), Push_all_stack 0x3000 0x4FF0]\<rparr>
     = Some (0x1FF8, suspended_thread 0x2FF8 0x3000, False,
             \<lparr>last_address = 0x2FFF, last_info = example_memory 0x2FFF,
              queried = [0x4FF0, 0x2FFF, 0x3000, 0x2FFF],
              events = [Push_many_regs (replicate 15 0), Push_all_stack 0x3000 0x4FF0,
                        Push_many_regs (replicate 15 0), Push_all_stack 0x3000 0x4FF0]\<rparr>)"
  by (simp add: GC_push_stack_for_def suspended_thread_def zero_thread_def read_context_sp_def
      find_stack_min_def GC_get_stack_min_def example_env_def may_be_in_stack_def Let_def
      VirtualQuery_def probe_down_stop example_pages push_stack_range_def ADDR_LIMIT_def)


text \<open>
  C2. For a thread whose record has \<open>last_stack_min = A\<close> and \<open>stack_end = B\<close> and whose
  stack pointer \<open>sp\<close> (the one \<open>GC_push_stack_for\<close> works with: the caller's own, the saved
  one of a blocked thread, the context's of any other) satisfies \<open>A <= sp < B\<close>,
  \<open>GC_push_stack_for\<close> returns \<open>B - sp\<close> and the range it pushes last is \<open>[sp, B)\<close>, by
  \<open>GC_push_all_stack_sections(sp, B, traced_stack_sect)\<close>: the lower bound is at most \<open>sp\<close>
  and the upper bound is \<open>B\<close>. No VirtualQuery is made.
\<close>

theorem GC_push_stack_for_in_range:
  assumes sp: "observed_sp env self_id thread = Some sp"
      and lo: "last_stack_min thread \<le> sp"
      and hi: "sp < stack_end thread"
  shows "\<exists>thread' sc'.
           GC_push_stack_for env thread self_id found_me sc
             = Some (stack_end thread - sp, thread', found_me \<or> thread_id thread = self_id, sc')
           \<and> last (events sc')
               = Push_all_stack_sections sp (stack_end thread) (traced_stack_sect thread)
           \<and> (\<exists>lower upper. pushed_range (last (events sc')) = Some (lower, upper)
                 \<and> lower \<le> sp \<and> upper = stack_end thread)
           \<and> queried sc' = queried sc"
proof -
  from push_stack_for_cached[OF sp lo hi, of found_me sc] obtain thread' sc' where
    "GC_push_stack_for env thread self_id found_me sc
       = Some (stack_end thread - sp, thread', found_me \<or> thread_id thread = self_id, sc')"
    "last (events sc') = Push_all_stack_sections sp (stack_end thread) (traced_stack_sect thread)"
    "queried sc' = queried sc"
    by blast
  then show ?thesis by (auto simp: pushed_range_def)
qed

theorem GC_push_stack_for_in_range_example:
  "observed_sp example_env 1 (suspended_thread 0x4000 0x3000) = Some 0x4000
   \<and> last_stack_min (suspended_thread 0x4000 0x3000) \<le> 0x4000
   \<and> 0x4000 < stack_end (suspended_thread 0x4000 0x3000)
   \<and> (\<exists>thread' sc'.
         GC_push_stack_for example_env (suspended_thread 0x4000 0x3000) 1 False initial_scan_state
           = Some (0xFF0, thread', False, sc')
         \<and> last (events sc') = Push_all_stack_sections 0x4000 0x4FF0 0
         \<and> queried sc' = [])"
proof -
  have sp: "observed_sp example_env 1 (suspended_thread 0x4000 0x3000) = Some 0x4000"
    by (simp add: observed_sp_def read_context_sp_def suspended_thread_def)
  have lo: "last_stack_min (suspended_thread 0x4000 0x3000) \<le> 0x4000"
    by (simp add: suspended_thread_def)
  have hi: "0x4000 < stack_end (suspended_thread 0x4000 0x3000)"
    by (simp add: suspended_thread_def)
  from GC_push_stack_for_in_range[OF sp lo hi, of False initial_scan_state]
  have "\<exists>thread' sc'.
         GC_push_stack_for example_env (suspended_thread 0x4000 0x3000) 1 False initial_scan_state
           = Some (0xFF0, thread', False, sc')
         \<and> last (events sc') = Push_all_stack_sections 0x4000 0x4FF0 0
         \<and> queried sc' = []"
    by (auto simp: suspended_thread_def zero_thread_def initial_scan_state_def)
  with sp lo hi show ?thesis by blast
qed

subsection \<open>Scanning a thread twice\<close>

text \<open>
  C4, as amended. Let \<open>GC_push_stack_for\<close> be called twice in succession for the same
  thread, with the same stack pointer \<open>sp\<close> and the same world around it. If after the
  first call \<open>sp\<close> lies within \<open>[last_stack_min, stack_end)\<close> of the record, then the first
  call has pushed \<open>[sp, stack_end)\<close>, and the second call takes the cached path: it makes
  no VirtualQuery (the addresses queried and the cache are as the first call left them),
  returns the same size and pushes the same range, with the same lower bound \<open>sp\<close>.
\<close>

theorem GC_push_stack_for_cached_second:
  assumes first: "GC_push_stack_for env thread self_id found_me sc = Some (sz, thread1, found1, sc1)"
      and sp: "observed_sp env self_id thread = Some sp"
      and lo: "last_stack_min thread1 \<le> sp"
      and hi: "sp < stack_end thread1"
  shows "\<exists>thread2 sc2.
           GC_push_stack_for env thread1 self_id found1 sc1 = Some (sz, thread2, found1, sc2)
           \<and> queried sc2 = queried sc1
           \<and> last_address sc2 = last_address sc1 \<and> last_info sc2 = last_info sc1
           \<and> last (events sc1)
               = Push_all_stack_sections sp (stack_end thread) (traced_stack_sect thread)
           \<and> last (events sc2) = last (events sc1)"
proof -
  from push_stack_for_decompose[OF first sp] obtain m is_self pre where
    d: "sz = stack_end thread - sp" "found1 = (found_me \<or> thread_id thread = self_id)"
       "stack_end thread1 = stack_end thread" "traced_stack_sect thread1 = traced_stack_sect thread"
       "thread_id thread1 = thread_id thread" "flags thread1 = flags thread"
       "handle thread1 = handle thread" "stack_ptr thread1 = stack_ptr thread"
       "context_sp thread1 = context_sp thread"
    and m: "(m = sp \<and> sp < stack_end thread \<and> last_stack_min thread1 \<le> sp) \<or> m = last_stack_min thread1"
    and e: "events sc1 = pre @ push_stack_range env is_self sp m thread1"
    by blast
  from m lo have "m \<le> sp" by auto
  with hi e d have l1: "last (events sc1)
      = Push_all_stack_sections sp (stack_end thread) (traced_stack_sect thread)"
    by (simp add: push_stack_range_def)
  from d sp have sp1: "observed_sp env self_id thread1 = Some sp"
    by (simp add: observed_sp_same[of thread1 thread])
  from push_stack_for_cached[OF sp1 lo hi, of found1 sc1] obtain thread2 sc2 where
    "GC_push_stack_for env thread1 self_id found1 sc1
       = Some (stack_end thread1 - sp, thread2, found1 \<or> thread_id thread1 = self_id, sc2)"
    "last (events sc2) = Push_all_stack_sections sp (stack_end thread1) (traced_stack_sect thread1)"
    "queried sc2 = queried sc1" "last_address sc2 = last_address sc1" "last_info sc2 = last_info sc1"
    by blast
  with d l1 show ?thesis by auto
qed

lemma first_call_in_range:
  "GC_push_stack_for example_env (suspended_thread 0x4000 ADDR_LIMIT) 1 False initial_scan_state
     = Some (0xFF0, suspended_thread 0x4000 0x3000, False,
             \<lparr>last_address = 0x2FFF, last_info = example_memory 0x2FFF,
              queried = [0x4FF0, 0x2FFF],
              events = [Push_many_regs (replicate 15 0),
                        Push_all_stack_sections 0x4000 0x4FF0 0]\<rparr>)"
  by (simp add: GC_push_stack_for_def suspended_thread_def zero_thread_def read_context_sp_def
      find_stack_min_def GC_get_stack_min_def example_env_def initial_scan_state_def
      VirtualQuery_def probe_down_stop example_pages push_stack_range_def ADDR_LIMIT_def)

theorem GC_push_stack_for_cached_second_example:
  "\<exists>thread1 sc1 thread2 sc2.
     GC_push_stack_for example_env (suspended_thread 0x4000 ADDR_LIMIT) 1 False initial_scan_state
       = Some (0xFF0, thread1, False, sc1)
     \<and> queried sc1 = [0x4FF0, 0x2FFF]
     \<and> last_stack_min thread1 = 0x3000 \<and> stack_end thread1 = 0x4FF0
     \<and> GC_push_stack_for example_env thread1 1 False sc1 = Some (0xFF0, thread2, False, sc2)
     \<and> queried sc2 = [0x4FF0, 0x2FFF]
     \<and> last (events sc2) = Push_all_stack_sections 0x4000 0x4FF0 0"
proof -
  let ?sc1 = "\<lparr>last_address = 0x2FFF, last_info = example_memory 0x2FFF,
              queried = [0x4FF0, 0x2FFF],
              events = [Push_many_regs (replicate 15 0),
                        Push_all_stack_sections 0x4000 0x4FF0 0]\<rparr>"
  have sp: "observed_sp example_env 1 (suspended_thread 0x4000 ADDR_LIMIT) = Some 0x4000"
    by (simp add: observed_sp_def read_context_sp_def suspended_thread_def)
  have lo: "last_stack_min (suspended_thread 0x4000 0x3000) \<le> 0x4000"
    by (simp add: suspended_thread_def)
  have hi: "0x4000 < stack_end (suspended_thread 0x4000 0x3000)"
    by (simp add: suspended_thread_def)
  from GC_push_stack_for_cached_second[OF first_call_in_range sp lo hi]
  obtain thread2 sc2 where
    "GC_push_stack_for example_env (suspended_thread 0x4000 0x3000) 1 False ?sc1
       = Some (0xFF0, thread2, False, sc2)"
    "queried sc2 = queried ?sc1"
    "last (events sc2) = last (events ?sc1)"
    by blast
  with first_call_in_range show ?thesis
    by (simp add: suspended_thread_def)
qed

lemma split_pages:
  "stack_page (split_memory 0x4FF0)" "stack_page (split_memory 0x1800)"
  "\<not> stack_page (split_memory 0x2FFF)"
  "BaseAddress (split_memory 0x4FF0) = 0x3000" "BaseAddress (split_memory 0x1800) = 0x1000"
  by (simp_all add: split_memory_def stack_page_def PAGE_READWRITE_def PAGE_GUARD_def)

lemma first_call_other_stack:
  "GC_push_stack_for split_env (running_thread ADDR_LIMIT) 1 False initial_scan_state
     = Some (0x37F0, running_thread 0x3000, True,
             \<lparr>last_address = 0x2FFF, last_info = split_memory 0x2FFF,
              queried = [0x4FF0, 0x2FFF],
              events = [Warn_out_of_range 0x1800, Push_all_stack 0x3000 0x4FF0]\<rparr>)"
  by (simp add: GC_push_stack_for_def running_thread_def zero_thread_def
      find_stack_min_def GC_get_stack_min_def split_env_def initial_scan_state_def
      VirtualQuery_def probe_down_stop split_pages push_stack_range_def ADDR_LIMIT_def)

lemma second_call_other_stack:
  "GC_push_stack_for split_env (running_thread 0x3000) 1 True
         \<lparr>last_address = 0x2FFF, last_info = split_memory 0x2FFF,
              queried = [0x4FF0, 0x2FFF],
              events = [Warn_out_of_range 0x1800, Push_all_stack 0x3000 0x4FF0]\<rparr>
     = Some (0x37F0, running_thread 0x1000, True,
             \<lparr>last_address = 0x1800, last_info = split_memory 0x1800,
              queried = [0x4FF0, 0x2FFF, 0x1800],
              events = [Warn_out_of_range 0x1800, Push_all_stack 0x3000 0x4FF0,
                        Push_all_stack_sections 0x1800 0x4FF0 0]\<rparr>)"
  by (simp add: GC_push_stack_for_def running_thread_def zero_thread_def
      find_stack_min_def GC_get_stack_min_def split_env_def may_be_in_stack_def Let_def
      VirtualQuery_def probe_down_stop split_pages push_stack_range_def ADDR_LIMIT_def)

text \<open>
  The claim as stated fails when \<open>sp\<close> is outside the range the first call finds. First,
  a suspended thread whose stack pointer is in the guard page just below its stack (the
  case the comment in \<open>GC_push_stack_for\<close> describes) is pushed from \<open>stack_min\<close> by the
  fallback both times, with the same lower bound, but the second call is not on the
  cached path: it queries the system again, in \<open>may_be_in_stack\<close> and in
  \<open>GC_get_stack_min\<close>. Second, for the calling thread running on pages that are separated
  from its registered stack, the first call pushes from the \<open>stack_min\<close> it finds below
  \<open>stack_end\<close>, and the second call, which trusts the caller's \<open>sp\<close>, queries the system
  for it and pushes from \<open>sp\<close>: the lower bounds differ.
\<close>

theorem GC_push_stack_for_cached_second_counterexample:
  "(\<exists>sz thread1 sc1 thread2 sc2.
     observed_sp example_env 1 (suspended_thread 0x2FF8 ADDR_LIMIT) = Some 0x2FF8
     \<and> GC_push_stack_for example_env (suspended_thread 0x2FF8 ADDR_LIMIT) 1 False initial_scan_state
         = Some (sz, thread1, False, sc1)
     \<and> GC_push_stack_for example_env thread1 1 False sc1 = Some (sz, thread2, False, sc2)
     \<and> stack_end thread1 = stack_end (suspended_thread 0x2FF8 ADDR_LIMIT)
     \<and> observed_sp example_env 1 thread1 = Some 0x2FF8
     \<and> \<not> last_stack_min thread1 \<le> 0x2FF8
     \<and> queried sc1 = [0x4FF0, 0x2FFF]
     \<and> queried sc2 = queried sc1 @ [0x3000, 0x2FFF]
     \<and> pushed_range (last (events sc1)) = Some (0x3000, 0x4FF0)
     \<and> pushed_range (last (events sc2)) = Some (0x3000, 0x4FF0))
   \<and> (\<exists>sz thread1 sc1 thread2 sc2.
     observed_sp split_env 1 (running_thread ADDR_LIMIT) = Some 0x1800
     \<and> GC_push_stack_for split_env (running_thread ADDR_LIMIT) 1 False initial_scan_state
         = Some (sz, thread1, True, sc1)
     \<and> GC_push_stack_for split_env thread1 1 True sc1 = Some (sz, thread2, True, sc2)
     \<and> stack_end thread1 = stack_end (running_thread ADDR_LIMIT)
     \<and> observed_sp split_env 1 thread1 = Some 0x1800
     \<and> \<not> last_stack_min thread1 \<le> 0x1800
     \<and> queried sc2 = queried sc1 @ [0x1800]
     \<and> pushed_range (last (events sc1)) = Some (0x3000, 0x4FF0)
     \<and> pushed_range (last (events sc2)) = Some (0x1800, 0x4FF0))"
proof -
  have a: "observed_sp example_env 1 (suspended_thread 0x2FF8 ADDR_LIMIT) = Some 0x2FF8"
    "observed_sp example_env 1 (suspended_thread 0x2FF8 0x3000) = Some 0x2FF8"
    "\<not> last_stack_min (suspended_thread 0x2FF8 0x3000) \<le> 0x2FF8"
    "stack_end (suspended_thread 0x2FF8 0x3000) = stack_end (suspended_thread 0x2FF8 ADDR_LIMIT)"
    by (simp_all add: observed_sp_def read_context_sp_def suspended_thread_def)
  have b: "observed_sp split_env 1 (running_thread ADDR_LIMIT) = Some 0x1800"
    "observed_sp split_env 1 (running_thread 0x3000) = Some 0x1800"
    "\<not> last_stack_min (running_thread 0x3000) \<le> 0x1800"
    "stack_end (running_thread 0x3000) = stack_end (running_thread ADDR_LIMIT)"
    by (simp_all add: observed_sp_def running_thread_def split_env_def)
  from a first_call_guard_page second_call_guard_page
  have 1: "\<exists>sz thread1 sc1 thread2 sc2.
     observed_sp example_env 1 (suspended_thread 0x2FF8 ADDR_LIMIT) = Some 0x2FF8
     \<and> GC_push_stack_for example_env (suspended_thread 0x2FF8 ADDR_LIMIT) 1 False initial_scan_state
         = Some (sz, thread1, False, sc1)
     \<and> GC_push_stack_for example_env thread1 1 False sc1 = Some (sz, thread2, False, sc2)
     \<and> stack_end thread1 = stack_end (suspended_thread 0x2FF8 ADDR_LIMIT)
     \<and> observed_sp example_env 1 thread1 = Some 0x2FF8
     \<and> \<not> last_stack_min thread1 \<le> 0x2FF8
     \<and> queried sc1 = [0x4FF0, 0x2FFF]
     \<and> queried sc2 = queried sc1 @ [0x3000, 0x2FFF]
     \<and> pushed_range (last (events sc1)) = Some (0x3000, 0x4FF0)
     \<and> pushed_range (last (events sc2)) = Some (0x3000, 0x4FF0)"
    by (simp add: pushed_range_def)
  from b first_call_other_stack second_call_other_stack
  have 2: "\<exists>sz thread1 sc1 thread2 sc2.
     observed_sp split_env 1 (running_thread ADDR_LIMIT) = Some 0x1800
     \<and> GC_push_stack_for split_env (running_thread ADDR_LIMIT) 1 False initial_scan_state
         = Some (sz, thread1, True, sc1)
     \<and> GC_push_stack_for split_env thread1 1 True sc1 = Some (sz, thread2, True, sc2)
     \<and> stack_end thread1 = stack_end (running_thread ADDR_LIMIT)
     \<and> observed_sp split_env 1 thread1 = Some 0x1800
     \<and> \<not> last_stack_min thread1 \<le> 0x1800
     \<and> queried sc2 = queried sc1 @ [0x1800]
     \<and> pushed_range (last (events sc1)) = Some (0x3000, 0x4FF0)
     \<and> pushed_range (last (events sc2)) = Some (0x1800, 0x4FF0)"
    by (simp add: pushed_range_def)
  from 1 2 show ?thesis by (intro conjI)
qed


subsection \<open>The total of the stacks pushed\<close>

lemma probe_down_total_nz:
  assumes sane: "sane_memory env"
  shows "BaseAddress (last_info sc) \<noteq> 0 \<Longrightarrow> \<exists>r. probe_down env sc = Some r"
proof (induction "unat (BaseAddress (last_info sc))" arbitrary: sc rule: less_induct)
  case less
  let ?b = "BaseAddress (last_info sc)"
  let ?sc' = "VirtualQuery env (?b - 1) sc"
  show ?case
  proof (cases "stack_page (memory_map env (?b - 1))")
    case False
    then show ?thesis by (simp add: probe_down_stop)
  next
    case True
    with sane have le: "BaseAddress (memory_map env (?b - 1)) \<le> ?b - 1"
      and nz: "BaseAddress (memory_map env (?b - 1)) \<noteq> 0"
      by (auto simp: sane_memory_def)
    have li: "last_info ?sc' = memory_map env (?b - 1)" by (simp add: VirtualQuery_def)
    from less.prems have "unat (?b - 1) = unat ?b - 1" by (simp add: unat_minus_one)
    moreover from less.prems have "0 < unat ?b" by (simp add: unat_gt_0)
    moreover from le have "unat (BaseAddress (memory_map env (?b - 1))) \<le> unat (?b - 1)"
      by (simp add: word_le_nat_alt)
    ultimately have "unat (BaseAddress (last_info ?sc')) < unat ?b" using li by simp
    from less.hyps[OF this] nz li obtain r where "probe_down env ?sc' = Some r" by auto
    with True show ?thesis by (simp add: probe_down_step)
  qed
qed

lemma probe_down_total:
  assumes sane: "sane_memory env"
  shows "\<exists>r. probe_down env sc = Some r"
proof (cases "stack_page (memory_map env (BaseAddress (last_info sc) - 1))")
  case False
  then show ?thesis by (simp add: probe_down_stop)
next
  case True
  let ?sc' = "VirtualQuery env (BaseAddress (last_info sc) - 1) sc"
  from True sane have "BaseAddress (last_info ?sc') \<noteq> 0"
    by (auto simp: sane_memory_def VirtualQuery_def)
  from probe_down_total_nz[OF sane this] True show ?thesis by (simp add: probe_down_step)
qed

lemma GC_get_stack_min_total:
  "sane_memory env \<Longrightarrow> \<exists>r. GC_get_stack_min env a sc = Some r"
  unfolding GC_get_stack_min_def by (rule probe_down_total)

lemma find_stack_min_total:
  assumes sane: "sane_memory env"
  shows "\<exists>r. find_stack_min env is_self sp th sc = Some r"
proof -
  have g: "\<And>a sc0. \<exists>m sc'. GC_get_stack_min env a sc0 = Some (m, sc')"
    using GC_get_stack_min_total[OF sane] by (metis surj_pair)
  show ?thesis
  proof (cases "last_stack_min th = ADDR_LIMIT")
    case True
    from g[of "if traced_stack_sect th \<noteq> 0 then traced_stack_sect th else stack_end th" sc]
    obtain m sc' where "GC_get_stack_min env
        (if traced_stack_sect th \<noteq> 0 then traced_stack_sect th else stack_end th) sc = Some (m, sc')"
      by blast
    with True show ?thesis by (simp add: find_stack_min_def)
  next
    case False
    define th0 where "th0 = (if traced_stack_sect th \<noteq> 0 \<and> last_stack_min th > traced_stack_sect th
                   then th\<lparr>last_stack_min := traced_stack_sect th\<rparr> else th)"
    show ?thesis
    proof (cases "sp < stack_end th0 \<and> sp \<ge> last_stack_min th0")
      case True
      with False show ?thesis by (simp add: find_stack_min_def Let_def th0_def[symmetric])
    next
      case nc: False
      obtain b sc1 where mb: "may_be_in_stack env
           (if is_self \<and> sp < last_stack_min th0 then sp else last_stack_min th0) sc = (b, sc1)"
        by (cases "may_be_in_stack env
           (if is_self \<and> sp < last_stack_min th0 then sp else last_stack_min th0) sc") auto
      from g[of "last_stack_min th0" sc1] obtain m1 s1 where
        g1: "GC_get_stack_min env (last_stack_min th0) sc1 = Some (m1, s1)" by blast
      from g[of "stack_end th0" sc1] obtain m2 s2 where
        g2: "GC_get_stack_min env (stack_end th0) sc1 = Some (m2, s2)" by blast
      from False nc mb g1 g2 show ?thesis
        by (cases b) (auto simp: find_stack_min_def Let_def th0_def[symmetric])
    qed
  qed
qed

lemma push_stack_for_total:
  assumes sane: "sane_memory env"
  shows "\<exists>sz th1 f1 sc1. GC_push_stack_for env thread self_id found_me sc = Some (sz, th1, f1, sc1)"
proof -
  have f: "\<And>is_self sp th sc0. \<exists>m th' sc'. find_stack_min env is_self sp th sc0 = Some (m, th', sc')"
    using find_stack_min_total[OF sane] by (metis surj_pair)
  show ?thesis
  proof (cases "thread_id thread = self_id")
    case True
    from f[of True "GC_approx_sp env" thread sc] obtain m th' sc' where
      "find_stack_min env True (GC_approx_sp env) thread sc = Some (m, th', sc')" by blast
    with True show ?thesis by (auto simp: GC_push_stack_for_def)
  next
    case nself: False
    show ?thesis
    proof (cases "DO_BLOCKING \<in> flags thread")
      case True
      from f[of False "stack_ptr thread" thread sc] obtain m th' sc' where
        "find_stack_min env False (stack_ptr thread) thread sc = Some (m, th', sc')" by blast
      with True nself show ?thesis by (simp add: GC_push_stack_for_def)
    next
      case False
      show ?thesis
      proof (cases "read_context_sp env thread")
        case None
        with False nself show ?thesis by (simp add: GC_push_stack_for_def)
      next
        case (Some r)
        obtain sp th where r: "r = (sp, th)" by (cases r) auto
        from f[of False sp th "sc\<lparr>events := events sc @ [Push_many_regs (context_regs th)]\<rparr>"]
        obtain m th' sc' where
          "find_stack_min env False sp th (sc\<lparr>events := events sc @ [Push_many_regs (context_regs th)]\<rparr>)
             = Some (m, th', sc')" by blast
        with False nself Some r show ?thesis by (simp add: GC_push_stack_for_def)
      qed
    qed
  qed
qed

lemma push_stack_for_result:
  assumes call: "GC_push_stack_for env thread self_id found_me sc = Some (sz, th1, f1, sc1)"
  shows "sz = stack_size_seen env self_id thread \<and> f1 = (found_me \<or> thread_id thread = self_id)"
proof (cases "observed_sp env self_id thread")
  case None
  then have "thread_id thread \<noteq> self_id" "DO_BLOCKING \<notin> flags thread"
    "read_context_sp env thread = None"
    by (auto simp: observed_sp_def split: if_splits)
  with call None show ?thesis by (simp add: GC_push_stack_for_def stack_size_seen_def)
next
  case (Some sp)
  from push_stack_for_decompose[OF call Some] Some show ?thesis
    by (simp add: stack_size_seen_def)
qed

lemma push_threads_result:
  "sane_memory env \<Longrightarrow>
   \<exists>ps' sc'. push_threads dll env self_id ps n total_size found_me sc
     = Some (ps', n + length (filter (scanned dll) ps),
             total_size + sum_list (map (stack_size_seen env self_id) (filter (scanned dll) ps)),
             found_me \<or> self_id \<in> thread_id ` set (filter (scanned dll) ps), sc')
     \<and> length ps' = length ps"
proof (induction ps arbitrary: n total_size found_me sc)
  case Nil
  then show ?case by simp
next
  case (Cons p ps)
  show ?case
  proof (cases "scanned dll p")
    case False
    from Cons.IH[OF Cons.prems, of n total_size found_me sc] obtain ps' sc' where
      "push_threads dll env self_id ps n total_size found_me sc
     = Some (ps', n + length (filter (scanned dll) ps),
             total_size + sum_list (map (stack_size_seen env self_id) (filter (scanned dll) ps)),
             found_me \<or> self_id \<in> thread_id ` set (filter (scanned dll) ps), sc')"
      "length ps' = length ps" by blast
    with False show ?thesis by simp
  next
    case True
    from push_stack_for_total[OF Cons.prems, of p self_id found_me sc] obtain sz th1 f1 sc1 where
      c: "GC_push_stack_for env p self_id found_me sc = Some (sz, th1, f1, sc1)" by blast
    from push_stack_for_result[OF c] have
      r: "sz = stack_size_seen env self_id p" "f1 = (found_me \<or> thread_id p = self_id)" by simp_all
    from Cons.IH[OF Cons.prems, of "Suc n" "total_size + sz" f1 sc1] obtain ps' sc' where
      "push_threads dll env self_id ps (Suc n) (total_size + sz) f1 sc1
     = Some (ps', Suc n + length (filter (scanned dll) ps),
             total_size + sz + sum_list (map (stack_size_seen env self_id) (filter (scanned dll) ps)),
             f1 \<or> self_id \<in> thread_id ` set (filter (scanned dll) ps), sc')"
      "length ps' = length ps" by blast
    with True c r show ?thesis by (auto simp: add.assoc)
  qed
qed

lemma push_buckets_result:
  "sane_memory env \<Longrightarrow>
   \<exists>cs' sc'. push_buckets env self_id cs n total_size found_me sc
     = Some (cs', n + length (filter (scanned False) (concat cs)),
             total_size + sum_list (map (stack_size_seen env self_id) (filter (scanned False) (concat cs))),
             found_me \<or> self_id \<in> thread_id ` set (filter (scanned False) (concat cs)), sc')"
proof (induction cs arbitrary: n total_size found_me sc)
  case Nil
  then show ?case by simp
next
  case (Cons c cs)
  from push_threads_result[OF Cons.prems, of False self_id c n total_size found_me sc]
  obtain c' sc1 where
    a: "push_threads False env self_id c n total_size found_me sc
     = Some (c', n + length (filter (scanned False) c),
             total_size + sum_list (map (stack_size_seen env self_id) (filter (scanned False) c)),
             found_me \<or> self_id \<in> thread_id ` set (filter (scanned False) c), sc1)" by blast
  from Cons.IH[OF Cons.prems, of "n + length (filter (scanned False) c)"
      "total_size + sum_list (map (stack_size_seen env self_id) (filter (scanned False) c))"
      "found_me \<or> self_id \<in> thread_id ` set (filter (scanned False) c)" sc1]
  obtain cs' sc' where
    b: "push_buckets env self_id cs (n + length (filter (scanned False) c))
      (total_size + sum_list (map (stack_size_seen env self_id) (filter (scanned False) c)))
      (found_me \<or> self_id \<in> thread_id ` set (filter (scanned False) c)) sc1
     = Some (cs', n + length (filter (scanned False) c) + length (filter (scanned False) (concat cs)),
             total_size + sum_list (map (stack_size_seen env self_id) (filter (scanned False) c))
               + sum_list (map (stack_size_seen env self_id) (filter (scanned False) (concat cs))),
             (found_me \<or> self_id \<in> thread_id ` set (filter (scanned False) c))
               \<or> self_id \<in> thread_id ` set (filter (scanned False) (concat cs)), sc')" by blast
  from a b show ?case by (auto simp: add.assoc)
qed

lemma push_all_loops_result:
  assumes sane: "sane_memory env"
  shows "\<exists>s1 sc1. push_all_loops env self_id s sc
           = Some (s1, length (scan_list s),
                   sum_list (map (stack_size_seen env self_id) (scan_list s)),
                   self_id \<in> thread_id ` set (scan_list s), sc1)
         \<and> GC_in_thread_creation s1 = GC_in_thread_creation s"
proof (cases "GC_win32_dll_threads s")
  case True
  let ?n = "nat (GC_get_max_thread_index s + 1)"
  from push_threads_result[OF sane, of True self_id "take ?n (dll_thread_table s)" 0 0 False sc]
  obtain ps' sc' where
    "push_threads True env self_id (take ?n (dll_thread_table s)) 0 0 False sc
     = Some (ps', length (scan_list s),
             sum_list (map (stack_size_seen env self_id) (scan_list s)),
             self_id \<in> thread_id ` set (scan_list s), sc')"
    using True by (auto simp: scan_list_def)
  with True show ?thesis
    by (simp add: push_all_loops_def Let_def)
next
  case False
  from push_buckets_result[OF sane, of self_id "GC_threads s" 0 0 False sc]
  obtain cs' sc' where
    "push_buckets env self_id (GC_threads s) 0 0 False sc
     = Some (cs', length (scan_list s),
             sum_list (map (stack_size_seen env self_id) (scan_list s)),
             self_id \<in> thread_id ` set (scan_list s), sc')"
    using False by (auto simp: scan_list_def)
  with False show ?thesis
    by (simp add: push_all_loops_def Let_def)
qed

lemma acquire_slot_result:
  "acquire_slot tbl i = Inr (k, tbl') \<Longrightarrow> int i \<le> MAX_THREADS - 1 \<Longrightarrow>
     \<not> in_use (tbl ! k) \<and> int k \<le> MAX_THREADS - 1 \<and> tbl' = tbl[k := (tbl ! k)\<lparr>in_use := True\<rparr>]"
proof (induction tbl i rule: acquire_slot.induct)
  case (1 tbl i)
  show ?case
  proof (cases "in_use (tbl ! i)")
    case False
    with "1.prems" show ?thesis by (auto simp: acquire_slot_free)
  next
    case True
    with "1.prems"(1) have lt: "\<not> int i \<ge> MAX_THREADS - 1"
      by (auto simp: acquire_slot.simps[of tbl i] split: if_splits)
    with True "1.prems"(1) have "acquire_slot tbl (Suc i) = Inr (k, tbl')"
      by (simp add: acquire_slot.simps[of tbl i])
    from "1.IH"[OF True lt this] lt show ?thesis by simp
  qed
qed

lemma scan_list_dll_iff:
  "GC_win32_dll_threads s \<Longrightarrow>
   p \<in> set (scan_list s) \<longleftrightarrow>
     (\<exists>j. j < length (dll_thread_table s) \<and> int j \<le> GC_get_max_thread_index s
          \<and> dll_thread_table s ! j = p \<and> scanned True p)"
  by (auto simp: scan_list_def in_set_conv_nth)

lemma register_inner_dll:
  assumes dll: "GC_win32_dll_threads s"
      and len: "length (dll_thread_table s) = nat MAX_THREADS"
      and r: "GC_register_my_thread_inner ix m dup sb tid s = Inr (me, s')"
  shows "\<exists>i h. \<not> in_use (dll_thread_table s ! i) \<and> int i \<le> MAX_THREADS - 1 \<and> mem_base sb \<noteq> 0
           \<and> dll_thread_table s'
               = (dll_thread_table s)[i := (dll_thread_table s ! i)\<lparr>in_use := True, handle := h,
                    last_stack_min := ADDR_LIMIT, stack_end := mem_base sb, thread_id := tid\<rparr>]
           \<and> GC_max_thread_index s'
               = (if max (int i) (GC_max_thread_index s) \<ge> MAX_THREADS then MAX_THREADS - 1
                  else max (int i) (GC_max_thread_index s))
           \<and> GC_threads s' = GC_threads s"
proof -
  from r dll obtain i tbl where a: "acquire_slot (dll_thread_table s) 0 = Inr (i, tbl)"
    by (auto simp: GC_register_my_thread_inner_def split: sum.splits)
  from acquire_slot_result[OF a] have
    i: "\<not> in_use (dll_thread_table s ! i)" "int i \<le> MAX_THREADS - 1"
       "tbl = (dll_thread_table s)[i := (dll_thread_table s ! i)\<lparr>in_use := True\<rparr>]"
    by (simp_all add: MAX_THREADS_def)
  from i(2) len have il: "i < length (dll_thread_table s)" by (simp add: MAX_THREADS_def)
  from r dll a obtain h where h: "dup = Some h"
    by (cases dup) (auto simp: GC_register_my_thread_inner_def Let_def)
  from r dll a h have nz: "mem_base sb \<noteq> 0"
    by (auto simp: GC_register_my_thread_inner_def Let_def GC_record_stack_base_def split: if_splits)
  from r dll a h nz i(3) il have
    "dll_thread_table s'
       = (dll_thread_table s)[i := (dll_thread_table s ! i)\<lparr>in_use := True, handle := h,
            last_stack_min := ADDR_LIMIT, stack_end := mem_base sb, thread_id := tid\<rparr>]"
    "GC_max_thread_index s'
               = (if max (int i) (GC_max_thread_index s) \<ge> MAX_THREADS then MAX_THREADS - 1
                  else max (int i) (GC_max_thread_index s))"
    "GC_threads s' = GC_threads s"
    by (auto simp: GC_register_my_thread_inner_def Let_def GC_record_stack_base_def assign_def
        deref_def raise_max_thread_index_max split: if_splits)
  with i nz show ?thesis by blast
qed

lemma register_inner_explicit:
  assumes dll: "\<not> GC_win32_dll_threads s"
      and len: "ix tid < length (GC_threads s)"
      and r: "GC_register_my_thread_inner ix m dup sb tid s = Inr (me, s')"
  shows "\<exists>h. mem_base sb \<noteq> 0
           \<and> GC_threads s'
               = (GC_threads s)[ix tid := (zero_thread\<lparr>handle := h, last_stack_min := ADDR_LIMIT,
                    stack_end := mem_base sb, thread_id := tid\<rparr>) # (GC_threads s ! ix tid)]
           \<and> dll_thread_table s' = dll_thread_table s
           \<and> GC_max_thread_index s' = GC_max_thread_index s"
proof -
  from r dll obtain h where h: "dup = Some h"
    by (cases dup)
       (auto simp: GC_register_my_thread_inner_def Let_def GC_new_thread_def split: if_splits)
  from r dll h have nz: "mem_base sb \<noteq> 0"
    by (auto simp: GC_register_my_thread_inner_def Let_def GC_record_stack_base_def
        GC_new_thread_def split: if_splits)
  from r dll h nz len have
    "GC_threads s'
               = (GC_threads s)[ix tid := (zero_thread\<lparr>handle := h, last_stack_min := ADDR_LIMIT,
                    stack_end := mem_base sb, thread_id := tid\<rparr>) # (GC_threads s ! ix tid)]"
    "dll_thread_table s' = dll_thread_table s"
    "GC_max_thread_index s' = GC_max_thread_index s"
    by (auto simp: GC_register_my_thread_inner_def Let_def GC_record_stack_base_def assign_def
        deref_def GC_new_thread_def split: if_splits)
  with nz show ?thesis by blast
qed

lemma set_concat_cons_update:
  "b < length xs \<Longrightarrow> set (concat (xs[b := a # xs ! b])) = insert a (set (concat xs))"
proof (induction xs arbitrary: b)
  case Nil
  then show ?case by simp
next
  case (Cons x xs)
  then show ?case by (cases b) auto
qed

lemma register_inner_found:
  assumes ok: "tables_sized ix s"
      and r: "GC_register_my_thread_inner ix m dup sb tid s = Inr (me, s')"
  shows "tid \<in> thread_id ` set (scan_list s')
         \<and> thread_id ` set (scan_list s) \<subseteq> thread_id ` set (scan_list s')
         \<and> tables_sized ix s'"
proof (cases "GC_win32_dll_threads s")
  case True
  from ok have len: "length (dll_thread_table s) = nat MAX_THREADS" by (simp add: tables_sized_def)
  from register_inner_globals(1)[OF r] True have dll': "GC_win32_dll_threads s'" by simp
  from register_inner_dll[OF True len r] obtain i h where
    i: "\<not> in_use (dll_thread_table s ! i)" "int i \<le> MAX_THREADS - 1" "mem_base sb \<noteq> 0"
    and tb: "dll_thread_table s'
               = (dll_thread_table s)[i := (dll_thread_table s ! i)\<lparr>in_use := True, handle := h,
                    last_stack_min := ADDR_LIMIT, stack_end := mem_base sb, thread_id := tid\<rparr>]"
    and mx: "GC_max_thread_index s'
               = (if max (int i) (GC_max_thread_index s) \<ge> MAX_THREADS then MAX_THREADS - 1
                  else max (int i) (GC_max_thread_index s))"
    and th: "GC_threads s' = GC_threads s"
    by blast
  let ?new = "(dll_thread_table s ! i)\<lparr>in_use := True, handle := h,
                    last_stack_min := ADDR_LIMIT, stack_end := mem_base sb, thread_id := tid\<rparr>"
  from i(2) len have il: "i < length (dll_thread_table s)" by (simp add: MAX_THREADS_def)
  from i(2) mx have im: "int i \<le> GC_get_max_thread_index s'"
    by (simp add: GC_get_max_thread_index_def Let_def)
  from mx have mono: "GC_get_max_thread_index s \<le> GC_get_max_thread_index s'"
    by (auto simp: GC_get_max_thread_index_def Let_def MAX_THREADS_def max_def split: if_splits)
  have "?new \<in> set (scan_list s')"
    unfolding scan_list_dll_iff[OF dll']
    using il im i(3) tb by (intro exI[of _ i]) (simp add: scanned_def)
  then have a: "tid \<in> thread_id ` set (scan_list s')" by force
  have b: "thread_id ` set (scan_list s) \<subseteq> thread_id ` set (scan_list s')"
  proof
    fix x assume "x \<in> thread_id ` set (scan_list s)"
    then obtain p where p: "p \<in> set (scan_list s)" "x = thread_id p" by blast
    from p(1) obtain j where j: "j < length (dll_thread_table s)"
      "int j \<le> GC_get_max_thread_index s" "dll_thread_table s ! j = p" "scanned True p"
      unfolding scan_list_dll_iff[OF True] by blast
    from j(3,4) i(1) have "j \<noteq> i" by (auto simp: scanned_def)
    with j tb mono have "p \<in> set (scan_list s')"
      unfolding scan_list_dll_iff[OF dll'] by (intro exI[of _ j]) simp
    with p(2) show "x \<in> thread_id ` set (scan_list s')" by blast
  qed
  from ok tb th have "tables_sized ix s'" by (simp add: tables_sized_def)
  with a b show ?thesis by blast
next
  case False
  from ok have len: "ix tid < length (GC_threads s)" by (simp add: tables_sized_def)
  from register_inner_globals(1)[OF r] False have dll': "\<not> GC_win32_dll_threads s'" by simp
  from register_inner_explicit[OF False len r] obtain h where
    nz: "mem_base sb \<noteq> 0"
    and th: "GC_threads s'
               = (GC_threads s)[ix tid := (zero_thread\<lparr>handle := h, last_stack_min := ADDR_LIMIT,
                    stack_end := mem_base sb, thread_id := tid\<rparr>) # (GC_threads s ! ix tid)]"
    and tb: "dll_thread_table s' = dll_thread_table s"
    by blast
  let ?new = "zero_thread\<lparr>handle := h, last_stack_min := ADDR_LIMIT,
                    stack_end := mem_base sb, thread_id := tid\<rparr>"
  have c: "set (concat (GC_threads s')) = insert ?new (set (concat (GC_threads s)))"
    by (simp only: th set_concat_cons_update[OF len])
  from nz have sc: "scanned False ?new"
    by (simp add: scanned_def KNOWN_FINISHED_def zero_thread_def)
  from c sc dll' have "?new \<in> set (scan_list s')" by (simp add: scan_list_def)
  then have a: "tid \<in> thread_id ` set (scan_list s')" by force
  from c False dll' have "set (scan_list s) \<subseteq> set (scan_list s')"
    by (auto simp: scan_list_def)
  then have b: "thread_id ` set (scan_list s) \<subseteq> thread_id ` set (scan_list s')" by blast
  from ok tb th have "tables_sized ix s'" by (simp add: tables_sized_def)
  with a b show ?thesis by blast
qed

lemma suspend_loop_no_exit:
  "\<forall>k. att k \<noteq> Thread_exited \<Longrightarrow> suspend_loop att h r st = Inr (e, st')
     \<Longrightarrow> \<exists>c. e = Exit_captured c"
proof (induction att h r st rule: suspend_loop.induct)
  case (1 att h r st)
  then show ?case
    by (cases "att r") (auto simp: suspend_loop.simps[of att h r st] split: if_splits)
qed

lemma GC_suspend_no_exit:
  assumes "\<forall>k. att k \<noteq> Thread_exited" "GC_suspend pthreads att t st = Inr (out, st')"
  shows "\<exists>c. out = Kept (t\<lparr>context_regs := fst (copy_ptr_regs c),
                       context_sp := snd (copy_ptr_regs c),
                       flags := insert IS_SUSPENDED (flags t)\<rparr>)"
proof (cases "suspend_loop att (handle t) 0 st")
  case (Inl e)
  with assms(2) show ?thesis by (simp add: GC_suspend_def)
next
  case (Inr r)
  obtain e st1 where r: "r = (e, st1)" by (cases r) auto
  from suspend_loop_no_exit[OF assms(1)] Inr r obtain c where "e = Exit_captured c" by blast
  with Inr r assms(2) show ?thesis by (auto simp: GC_suspend_def)
qed

lemma stop_dll_slots_kept:
  assumes ne: "\<forall>h k. att h k \<noteq> Thread_exited"
  shows "stop_dll_slots pthreads att self_id ps st = Inr (ps', st')
     \<Longrightarrow> map thread_id ps' = map thread_id ps \<and> map (scanned d) ps' = map (scanned d) ps
         \<and> (\<forall>p'\<in>set ps'. stack_end p' \<noteq> 0 \<and> thread_id p' \<noteq> self_id \<and> DO_BLOCKING \<notin> flags p'
               \<longrightarrow> IS_SUSPENDED \<in> flags p')"
proof (induction ps arbitrary: st ps')
  case Nil
  then show ?case by simp
next
  case (Cons p ps)
  show ?case
  proof (cases "stack_end p \<noteq> 0 \<and> DO_BLOCKING \<notin> flags p \<and> thread_id p \<noteq> self_id")
    case False
    with Cons.prems obtain qs where
      q: "stop_dll_slots pthreads att self_id ps st = Inr (qs, st')" "ps' = p # qs"
      by (auto split: sum.splits)
    from Cons.IH[OF q(1)] q(2) False show ?thesis by auto
  next
    case True
    with Cons.prems obtain out st1 where
      g: "GC_suspend pthreads (att (handle p)) p st = Inr (out, st1)"
      by (auto split: sum.splits)
    from ne have "\<forall>k. att (handle p) k \<noteq> Thread_exited" by simp
    from GC_suspend_no_exit[OF this g] obtain c where
      out: "out = Kept (p\<lparr>context_regs := fst (copy_ptr_regs c),
                       context_sp := snd (copy_ptr_regs c),
                       flags := insert IS_SUSPENDED (flags p)\<rparr>)" by blast
    with Cons.prems True g obtain qs where
      q: "stop_dll_slots pthreads att self_id ps st1 = Inr (qs, st')"
         "ps' = p\<lparr>context_regs := fst (copy_ptr_regs c),
                       context_sp := snd (copy_ptr_regs c),
                       flags := insert IS_SUSPENDED (flags p)\<rparr> # qs"
      by (auto split: sum.splits)
    from Cons.IH[OF q(1)] q(2) show ?thesis
      by (auto simp: scanned_def KNOWN_FINISHED_def)
  qed
qed

lemma stop_bucket_kept:
  assumes ne: "\<forall>h k. att h k \<noteq> Thread_exited"
  shows "stop_bucket pthreads ix att self_id b ps st = Inr (ps', st')
     \<Longrightarrow> map thread_id ps' = map thread_id ps \<and> map (scanned d) ps' = map (scanned d) ps
         \<and> (\<forall>p'\<in>set ps'. stack_end p' \<noteq> 0 \<and> thread_id p' \<noteq> self_id
                 \<and> FINISHED \<notin> flags p' \<and> DO_BLOCKING \<notin> flags p'
               \<longrightarrow> IS_SUSPENDED \<in> flags p')"
proof (induction ps arbitrary: st ps')
  case Nil
  then show ?case by simp
next
  case (Cons p ps)
  show ?case
  proof (cases "stack_end p \<noteq> 0 \<and> thread_id p \<noteq> self_id
         \<and> FINISHED \<notin> flags p \<and> DO_BLOCKING \<notin> flags p")
    case False
    with Cons.prems obtain qs where
      q: "stop_bucket pthreads ix att self_id b ps st = Inr (qs, st')" "ps' = p # qs"
      by (auto split: sum.splits)
    from Cons.IH[OF q(1)] q(2) False show ?thesis by auto
  next
    case True
    with Cons.prems obtain out st1 where
      g: "GC_suspend pthreads (att (handle p)) p st = Inr (out, st1)"
      by (auto split: sum.splits)
    from ne have "\<forall>k. att (handle p) k \<noteq> Thread_exited" by simp
    from GC_suspend_no_exit[OF this g] obtain c where
      out: "out = Kept (p\<lparr>context_regs := fst (copy_ptr_regs c),
                       context_sp := snd (copy_ptr_regs c),
                       flags := insert IS_SUSPENDED (flags p)\<rparr>)" by blast
    with Cons.prems True g obtain qs where
      q: "stop_bucket pthreads ix att self_id b ps st1 = Inr (qs, st')"
         "ps' = p\<lparr>context_regs := fst (copy_ptr_regs c),
                       context_sp := snd (copy_ptr_regs c),
                       flags := insert IS_SUSPENDED (flags p)\<rparr> # qs"
      by (auto split: sum.splits)
    from Cons.IH[OF q(1)] q(2) show ?thesis
      by (auto simp: scanned_def KNOWN_FINISHED_def)
  qed
qed

lemma stop_buckets_kept:
  assumes ne: "\<forall>h k. att h k \<noteq> Thread_exited"
  shows "stop_buckets pthreads ix att self_id b cs st = Inr (cs', st')
     \<Longrightarrow> map thread_id (concat cs') = map thread_id (concat cs)
         \<and> map (scanned d) (concat cs') = map (scanned d) (concat cs)
         \<and> length cs' = length cs
         \<and> (\<forall>p'\<in>set (concat cs'). stack_end p' \<noteq> 0 \<and> thread_id p' \<noteq> self_id
                 \<and> FINISHED \<notin> flags p' \<and> DO_BLOCKING \<notin> flags p'
               \<longrightarrow> IS_SUSPENDED \<in> flags p')"
proof (induction cs arbitrary: b st cs')
  case Nil
  then show ?case by simp
next
  case (Cons c cs)
  from Cons.prems obtain c' st1 qs where
    q: "stop_bucket pthreads ix att self_id b c st = Inr (c', st1)"
       "stop_buckets pthreads ix att self_id (Suc b) cs st1 = Inr (qs, st')" "cs' = c' # qs"
    by (auto split: sum.splits)
  from stop_bucket_kept[OF ne q(1), of d] Cons.IH[OF q(2)] q(3) show ?case
    by (simp add: ball_Un)
qed

lemma map_filter_same:
  "map f xs = map f ys \<Longrightarrow> map P xs = map P ys \<Longrightarrow> map f (filter P xs) = map f (filter P ys)"
proof (induction xs arbitrary: ys)
  case Nil
  then show ?case by simp
next
  case (Cons x xs)
  then show ?case by (cases ys) auto
qed

lemma get_max_updates:
  "GC_get_max_thread_index (s\<lparr>GC_please_stop := a\<rparr>) = GC_get_max_thread_index s"
  "GC_get_max_thread_index (s\<lparr>GC_attached_thread := b\<rparr>) = GC_get_max_thread_index s"
  "GC_get_max_thread_index (s\<lparr>dll_thread_table := c\<rparr>) = GC_get_max_thread_index s"
  "GC_get_max_thread_index (s\<lparr>os := d\<rparr>) = GC_get_max_thread_index s"
  "GC_get_max_thread_index (s\<lparr>GC_threads := e\<rparr>) = GC_get_max_thread_index s"
  by (simp_all add: GC_get_max_thread_index_def)

lemma stop_world_kept:
  assumes ne: "\<forall>h k. att h k \<noteq> Thread_exited"
      and r: "GC_stop_world pthreads ix att self_id s = Inr s'"
  shows "map thread_id (scan_list s') = map thread_id (scan_list s)
         \<and> (\<forall>p\<in>set (scan_list s'). thread_id p \<noteq> self_id \<and> DO_BLOCKING \<notin> flags p
               \<longrightarrow> IS_SUSPENDED \<in> flags p)"
proof (cases "GC_win32_dll_threads s")
  case True
  let ?n = "nat (GC_get_max_thread_index s + 1)"
  from r True obtain ps st where
    q: "stop_dll_slots pthreads att self_id (take ?n (dll_thread_table s)) (os s) = Inr (ps, st)"
       "s' = s\<lparr>GC_please_stop := True, GC_attached_thread := False,
               dll_thread_table := ps @ drop ?n (dll_thread_table s), os := st\<rparr>"
    by (auto simp: GC_stop_world_def Let_def get_max_updates split: sum.splits)
  note k = stop_dll_slots_kept[OF ne q(1), of True]
  from k have "length ps = length (take ?n (dll_thread_table s))"
    by (metis length_map)
  then have tk: "take ?n (ps @ drop ?n (dll_thread_table s)) = ps"
    by (auto simp: min_def)
  from q(2) have mx: "GC_get_max_thread_index s' = GC_get_max_thread_index s"
    by (simp add: get_max_updates)
  from q(2) True mx tk have sl: "scan_list s' = filter (scanned True) ps"
    by (simp add: scan_list_def)
  from True have sl0: "scan_list s = filter (scanned True) (take ?n (dll_thread_table s))"
    by (simp add: scan_list_def)
  from k have "map thread_id (filter (scanned True) ps)
      = map thread_id (filter (scanned True) (take ?n (dll_thread_table s)))"
    by (intro map_filter_same) simp_all
  with sl sl0 k show ?thesis by (auto simp: scanned_def)
next
  case False
  from r False obtain cs st where
    q: "stop_buckets pthreads ix att self_id 0 (GC_threads s) (os s) = Inr (cs, st)"
       "s' = s\<lparr>GC_please_stop := True, GC_threads := cs, os := st\<rparr>"
    by (auto simp: GC_stop_world_def Let_def split: sum.splits)
  note k = stop_buckets_kept[OF ne q(1), of False]
  from q(2) False have sl: "scan_list s' = filter (scanned False) (concat cs)"
    by (simp add: scan_list_def)
  from False have sl0: "scan_list s = filter (scanned False) (concat (GC_threads s))"
    by (simp add: scan_list_def)
  from k have "map thread_id (filter (scanned False) (concat cs))
      = map thread_id (filter (scanned False) (concat (GC_threads s)))"
    by (intro map_filter_same) simp_all
  with sl sl0 k show ?thesis by (auto simp: scanned_def KNOWN_FINISHED_def)
qed

lemma observed_sp_stopped:
  "thread_id p = self_id \<or> DO_BLOCKING \<in> flags p \<or> IS_SUSPENDED \<in> flags p
     \<Longrightarrow> \<exists>sp. observed_sp env self_id p = Some sp"
  by (auto simp: observed_sp_def read_context_sp_def)

lemma two_threads_explicit:
  "two_threads False = (initial_state False 4)
     \<lparr>first_thread_used := True,
      GC_threads := [[], [zero_thread\<lparr>handle := 11, last_stack_min := ADDR_LIMIT,
                                      stack_end := 0x8000, thread_id := 1\<rparr>],
                     [zero_thread\<lparr>handle := 12, last_stack_min := ADDR_LIMIT,
                                  stack_end := 0x4FF0, thread_id := 2\<rparr>], []]\<rparr>"
  by (simp add: two_threads_def main_registered_explicit GC_register_my_thread_inner_def
      initial_state_def example_index_def GC_new_thread_def GC_record_stack_base_def deref_def
      assign_def Let_def)

lemma two_threads_dll:
  "two_threads True = (initial_state True 4)
     \<lparr>GC_max_thread_index := 1,
      dll_thread_table :=
        (zero_thread\<lparr>in_use := True, handle := 11, last_stack_min := ADDR_LIMIT,
                      stack_end := 0x8000, thread_id := 1\<rparr>)
        # (zero_thread\<lparr>in_use := True, handle := 12, last_stack_min := ADDR_LIMIT,
                        stack_end := 0x4FF0, thread_id := 2\<rparr>)
        # zero_thread # replicate 509 zero_thread\<rparr>"
  by (simp add: two_threads_def main_registered_dll GC_register_my_thread_inner_def
      initial_state_def GC_record_stack_base_def deref_def assign_def Let_def
      acquire_slot_free acquire_slot_busy raise_max_thread_index_max zero_thread_def
      MAX_THREADS_def)

lemma two_threads_stopped:
  "\<exists>s1. GC_stop_world False example_index (captured_at 0x4000) 1 (two_threads False) = Inr s1
     \<and> \<not> GC_win32_dll_threads s1
     \<and> GC_threads s1
           = [[], [zero_thread\<lparr>handle := 11, last_stack_min := ADDR_LIMIT,
                                stack_end := 0x8000, thread_id := 1\<rparr>],
              [zero_thread\<lparr>handle := 12, last_stack_min := ADDR_LIMIT,
                           stack_end := 0x4FF0, thread_id := 2, context_sp := 0x4000,
                           flags := {IS_SUSPENDED}\<rparr>], []]"
  by (simp add: two_threads_explicit initial_state_def GC_stop_world_def Let_def zero_thread_def
      GC_suspend_def suspend_loop_captured captured_at_def copy_ptr_regs_def zero_context_def
      regs_unfold)

lemma two_threads_exited:
  "GC_stop_world False example_index (\<lambda>h k. Thread_exited) 1 (two_threads True)
     = Inr ((two_threads True)
         \<lparr>GC_please_stop := True,
          dll_thread_table :=
            (zero_thread\<lparr>in_use := True, handle := 11, last_stack_min := ADDR_LIMIT,
                      stack_end := 0x8000, thread_id := 1\<rparr>)
            # (zero_thread\<lparr>handle := 12, last_stack_min := ADDR_LIMIT\<rparr>)
            # zero_thread # replicate 509 zero_thread,
          os := \<lparr>suspend_count = (\<lambda>h. 0), closed_handles = [12]\<rparr>\<rparr>)"
  by (simp add: two_threads_dll initial_state_def GC_stop_world_def Let_def zero_thread_def
      GC_get_max_thread_index_def MAX_THREADS_def GC_suspend_def suspend_loop_exited
      clear_dll_slot_def CloseHandle_def)

lemma attach_all_found:
  "tables_sized ix s0 \<Longrightarrow> attach_all ix regs s0 = Inr s
     \<Longrightarrow> thread_id ` set (scan_list s0) \<union> (\<lambda>(dup, sb, tid). tid) ` set regs
           \<subseteq> thread_id ` set (scan_list s)"
proof (induction regs arbitrary: s0)
  case Nil
  then show ?case by simp
next
  case (Cons reg regs)
  obtain dup sb tid where reg: "reg = (dup, sb, tid)" by (cases reg) auto
  with Cons.prems(2) obtain me s1 where
    s1: "GC_register_my_thread_inner ix True dup sb tid s0 = Inr (me, s1)"
        "attach_all ix regs s1 = Inr s"
    by (auto split: sum.splits)
  from register_inner_found[OF Cons.prems(1) s1(1)] have
    f: "tid \<in> thread_id ` set (scan_list s1)"
       "thread_id ` set (scan_list s0) \<subseteq> thread_id ` set (scan_list s1)"
       "tables_sized ix s1" by simp_all
  from Cons.IH[OF f(3) s1(2)] f(1,2) reg show ?case by auto
qed

lemma registered_then_stopped:
  assumes ne: "\<forall>h k. att h k \<noteq> Thread_exited"
      and ts: "tables_sized ix s0"
      and at: "attach_all ix regs s0 = Inr s1"
      and st: "GC_stop_world pthreads ix att self_id s1 = Inr s"
  shows "thread_id ` set (scan_list s0) \<union> (\<lambda>(dup, sb, tid). tid) ` set regs
           \<subseteq> thread_id ` set (scan_list s)
         \<and> (\<forall>p\<in>set (scan_list s). thread_id p \<noteq> self_id \<and> DO_BLOCKING \<notin> flags p
               \<longrightarrow> IS_SUSPENDED \<in> flags p)"
proof -
  from stop_world_kept[OF ne st] have
    k: "map thread_id (scan_list s) = map thread_id (scan_list s1)"
    and f: "\<forall>p\<in>set (scan_list s). thread_id p \<noteq> self_id \<and> DO_BLOCKING \<notin> flags p
               \<longrightarrow> IS_SUSPENDED \<in> flags p" by simp_all
  from k have "thread_id ` set (scan_list s) = thread_id ` set (scan_list s1)"
    by (metis set_map)
  with attach_all_found[OF ts at] f show ?thesis by simp
qed

lemma example_env_sane: "sane_memory example_env"
  by (auto simp: sane_memory_def example_env_def example_memory_def stack_page_def
      PAGE_READWRITE_def PAGE_GUARD_def split: if_splits)

lemma stack_size_seen_cases:
  "stack_size_seen env self_id p =
     (if thread_id p = self_id then stack_end p - GC_approx_sp env
      else if DO_BLOCKING \<in> flags p then stack_end p - stack_ptr p
      else if IS_SUSPENDED \<in> flags p then stack_end p - context_sp p
      else (case GetThreadContext env (handle p) of
              Some c \<Rightarrow> stack_end p - Rsp c
            | None \<Rightarrow> if context_sp p = 0 then 0 else stack_end p - context_sp p))"
  by (simp add: stack_size_seen_def observed_sp_def read_context_sp_def copy_ptr_regs_def
      split: option.splits)

lemma push_all_stacks_return:
  assumes sane: "sane_memory env"
      and me: "self_id \<in> thread_id ` set (scan_list s) \<or> GC_in_thread_creation s"
  shows "\<exists>s1 sc1. GC_push_all_stacks env self_id s sc = Some (Inr (s1, sc1))
           \<and> GC_total_stacksize s1 = sum_list (map (stack_size_seen env self_id) (scan_list s))
           \<and> last (events sc1) = Log_pushed_stacks (length (scan_list s))"
proof -
  from push_all_loops_result[OF sane, of self_id s sc] obtain s1 sc1 where
    l: "push_all_loops env self_id s sc
           = Some (s1, length (scan_list s),
                   sum_list (map (stack_size_seen env self_id) (scan_list s)),
                   self_id \<in> thread_id ` set (scan_list s), sc1)"
    and c: "GC_in_thread_creation s1 = GC_in_thread_creation s" by blast
  with me show ?thesis by (auto simp: GC_push_all_stacks_def)
qed

lemma attach_second_thread:
  "attach_all example_index [(Some 12, \<lparr>mem_base = 0x4FF0\<rparr>, 2)] (main_registered dll)
     = Inr (two_threads dll)"
proof (cases dll)
  case True
  then show ?thesis
    by (simp add: two_threads_def main_registered_dll GC_register_my_thread_inner_def
      initial_state_def GC_record_stack_base_def deref_def assign_def Let_def
      acquire_slot_free acquire_slot_busy raise_max_thread_index_max zero_thread_def
      MAX_THREADS_def)
next
  case False
  then show ?thesis
    by (simp add: two_threads_def main_registered_explicit GC_register_my_thread_inner_def
      initial_state_def example_index_def GC_new_thread_def GC_record_stack_base_def deref_def
      assign_def Let_def)
qed

text \<open>
  C3, as amended. With a memory map that lets the loop of \<open>GC_get_stack_min\<close> end,
  \<open>GC_push_all_stacks\<close> returns. Its loops scan the records of \<open>scan_list\<close>: in the
  thread table, the slots in use up to the maximum index whose stack range is set; in the
  hash table, the records whose stack range is set and which are not FINISHED. After the
  loops \<open>nthreads\<close> is the number of these records, \<open>total_size\<close> is the sum over them of
  \<open>stack_size_seen\<close>, and \<open>found_me\<close> says whether the caller's record was among them.
  \<open>stack_size_seen\<close> is \<open>stack_end - sp\<close>, where \<open>sp\<close> is the caller's own stack pointer
  for the caller's record, the stack pointer saved on entry to a blocking bracket for a
  record in one, the stack pointer of the saved context for a suspended record, and
  otherwise the stack pointer that the thread's context gives now or, when the context
  cannot be read, the one saved last; it is 0 for a thread skipped because there is
  neither. The call aborts with "Collecting from unknown thread" when the caller's record
  was not among those scanned and \<open>GC_in_thread_creation\<close> is not set; otherwise it
  stores the sum in \<open>GC_total_stacksize\<close> and logs the number of records scanned. In
  particular, after any number of threads register and the initiator, itself registered,
  stops the world, the system reporting no thread as exited, the initiator and all these
  threads are among those scanned, a stack pointer is observed for every record scanned,
  and the call stores the sum of their \<open>stack_end - sp\<close>.
\<close>

theorem GC_push_all_stacks_total:
  assumes sane: "sane_memory env"
  shows "(\<exists>s1 sc1. push_all_loops env self_id s sc
            = Some (s1, length (scan_list s),
                    sum_list (map (stack_size_seen env self_id) (scan_list s)),
                    self_id \<in> thread_id ` set (scan_list s), sc1))
       \<and> (self_id \<notin> thread_id ` set (scan_list s) \<and> \<not> GC_in_thread_creation s
            \<longrightarrow> GC_push_all_stacks env self_id s sc
                  = Some (Inl (ABORT ''Collecting from unknown thread'')))
       \<and> (self_id \<in> thread_id ` set (scan_list s) \<or> GC_in_thread_creation s
            \<longrightarrow> (\<exists>s1 sc1. GC_push_all_stacks env self_id s sc = Some (Inr (s1, sc1))
                  \<and> GC_total_stacksize s1
                      = sum_list (map (stack_size_seen env self_id) (scan_list s))
                  \<and> last (events sc1) = Log_pushed_stacks (length (scan_list s))))
       \<and> (\<forall>p. stack_size_seen env self_id p =
              (if thread_id p = self_id then stack_end p - GC_approx_sp env
               else if DO_BLOCKING \<in> flags p then stack_end p - stack_ptr p
               else if IS_SUSPENDED \<in> flags p then stack_end p - context_sp p
               else (case GetThreadContext env (handle p) of
                       Some c \<Rightarrow> stack_end p - Rsp c
                     | None \<Rightarrow> if context_sp p = 0 then 0 else stack_end p - context_sp p)))
       \<and> (\<forall>pthreads THREAD_TABLE_INDEX regs att s0 s1.
            tables_sized THREAD_TABLE_INDEX s0
            \<and> self_id \<in> thread_id ` set (scan_list s0)
            \<and> (\<forall>h k. att h k \<noteq> Thread_exited)
            \<and> attach_all THREAD_TABLE_INDEX regs s0 = Inr s1
            \<and> GC_stop_world pthreads THREAD_TABLE_INDEX att self_id s1 = Inr s
            \<longrightarrow> insert self_id ((\<lambda>(dup, sb, tid). tid) ` set regs) \<subseteq> thread_id ` set (scan_list s)
                \<and> (\<forall>p\<in>set (scan_list s).
                      \<exists>sp. observed_sp env self_id p = Some sp
                           \<and> stack_size_seen env self_id p = stack_end p - sp)
                \<and> (\<exists>s2 sc2. GC_push_all_stacks env self_id s sc = Some (Inr (s2, sc2))
                      \<and> GC_total_stacksize s2
                          = sum_list (map (stack_size_seen env self_id) (scan_list s))))"
proof -
  from push_all_loops_result[OF sane, of self_id s sc] obtain s1 sc1 where
    l: "push_all_loops env self_id s sc
           = Some (s1, length (scan_list s),
                   sum_list (map (stack_size_seen env self_id) (scan_list s)),
                   self_id \<in> thread_id ` set (scan_list s), sc1)"
    and c: "GC_in_thread_creation s1 = GC_in_thread_creation s" by blast
  from l have a: "\<exists>s1 sc1. push_all_loops env self_id s sc
            = Some (s1, length (scan_list s),
                    sum_list (map (stack_size_seen env self_id) (scan_list s)),
                    self_id \<in> thread_id ` set (scan_list s), sc1)" by blast
  from l c have b: "self_id \<notin> thread_id ` set (scan_list s) \<and> \<not> GC_in_thread_creation s
            \<longrightarrow> GC_push_all_stacks env self_id s sc
                  = Some (Inl (ABORT ''Collecting from unknown thread''))"
    by (simp add: GC_push_all_stacks_def)
  from push_all_stacks_return[OF sane, of self_id s sc]
  have d: "self_id \<in> thread_id ` set (scan_list s) \<or> GC_in_thread_creation s
            \<longrightarrow> (\<exists>s1 sc1. GC_push_all_stacks env self_id s sc = Some (Inr (s1, sc1))
                  \<and> GC_total_stacksize s1
                      = sum_list (map (stack_size_seen env self_id) (scan_list s))
                  \<and> last (events sc1) = Log_pushed_stacks (length (scan_list s)))"
    by blast
  have f: "\<forall>p. stack_size_seen env self_id p =
              (if thread_id p = self_id then stack_end p - GC_approx_sp env
               else if DO_BLOCKING \<in> flags p then stack_end p - stack_ptr p
               else if IS_SUSPENDED \<in> flags p then stack_end p - context_sp p
               else (case GetThreadContext env (handle p) of
                       Some c \<Rightarrow> stack_end p - Rsp c
                     | None \<Rightarrow> if context_sp p = 0 then 0 else stack_end p - context_sp p))"
    by (intro allI stack_size_seen_cases)
  have e: "insert self_id ((\<lambda>(dup, sb, tid). tid) ` set regs) \<subseteq> thread_id ` set (scan_list s)
                \<and> (\<forall>p\<in>set (scan_list s).
                      \<exists>sp. observed_sp env self_id p = Some sp
                           \<and> stack_size_seen env self_id p = stack_end p - sp)
                \<and> (\<exists>s2 sc2. GC_push_all_stacks env self_id s sc = Some (Inr (s2, sc2))
                      \<and> GC_total_stacksize s2
                          = sum_list (map (stack_size_seen env self_id) (scan_list s)))"
    if h: "tables_sized THREAD_TABLE_INDEX s0" "self_id \<in> thread_id ` set (scan_list s0)"
       "\<forall>h k. att h k \<noteq> Thread_exited"
       "attach_all THREAD_TABLE_INDEX regs s0 = Inr s1"
       "GC_stop_world pthreads THREAD_TABLE_INDEX att self_id s1 = Inr s"
    for pthreads THREAD_TABLE_INDEX regs att s0 s1
  proof -
    from registered_then_stopped[OF h(3) h(1) h(4) h(5)] have
      sub: "thread_id ` set (scan_list s0) \<union> (\<lambda>(dup, sb, tid). tid) ` set regs
              \<subseteq> thread_id ` set (scan_list s)"
      and fl: "\<forall>p\<in>set (scan_list s). thread_id p \<noteq> self_id \<and> DO_BLOCKING \<notin> flags p
               \<longrightarrow> IS_SUSPENDED \<in> flags p" by simp_all
    from sub h(2) have i: "insert self_id ((\<lambda>(dup, sb, tid). tid) ` set regs)
         \<subseteq> thread_id ` set (scan_list s)" by auto
    have o: "\<exists>sp. observed_sp env self_id p = Some sp
                           \<and> stack_size_seen env self_id p = stack_end p - sp"
      if "p \<in> set (scan_list s)" for p
    proof -
      from fl that have "thread_id p = self_id \<or> DO_BLOCKING \<in> flags p \<or> IS_SUSPENDED \<in> flags p"
        by blast
      from observed_sp_stopped[OF this, of env] show ?thesis
        by (auto simp: stack_size_seen_def)
    qed
    from i have "self_id \<in> thread_id ` set (scan_list s)" by simp
    with d have "\<exists>s2 sc2. GC_push_all_stacks env self_id s sc = Some (Inr (s2, sc2))
                      \<and> GC_total_stacksize s2
                          = sum_list (map (stack_size_seen env self_id) (scan_list s))"
      by blast
    with i o show ?thesis by blast
  qed
  from a b d f e show ?thesis by blast
qed

text \<open>
  Thread 2 registers in the hash table and the main thread stops the world: both are
  scanned, and the total is the sum of the two stacks.
\<close>

theorem GC_push_all_stacks_total_example:
  "sane_memory example_env
   \<and> tables_sized example_index (main_registered False)
   \<and> (\<exists>s s1 sc1.
        attach_all example_index [(Some 12, \<lparr>mem_base = 0x4FF0\<rparr>, 2)] (main_registered False)
          = Inr (two_threads False)
        \<and> GC_stop_world False example_index (captured_at 0x4000) 1 (two_threads False) = Inr s
        \<and> map thread_id (scan_list s) = [1, 2]
        \<and> GC_push_all_stacks example_env 1 s initial_scan_state = Some (Inr (s1, sc1))
        \<and> GC_total_stacksize s1 = (0x8000 - 0x4F00) + (0x4FF0 - 0x4000))"
proof -
  from two_threads_stopped obtain s where
    r: "GC_stop_world False example_index (captured_at 0x4000) 1 (two_threads False) = Inr s"
    and m: "\<not> GC_win32_dll_threads s"
    and g: "GC_threads s
           = [[], [zero_thread\<lparr>handle := 11, last_stack_min := ADDR_LIMIT,
                                stack_end := 0x8000, thread_id := 1\<rparr>],
              [zero_thread\<lparr>handle := 12, last_stack_min := ADDR_LIMIT,
                           stack_end := 0x4FF0, thread_id := 2, context_sp := 0x4000,
                           flags := {IS_SUSPENDED}\<rparr>], []]"
    by blast
  note at = attach_second_thread[of False]
  have "length (GC_threads (main_registered False)) = 4"
    "length (dll_thread_table (main_registered False)) = nat MAX_THREADS"
    by (simp_all add: main_registered_explicit initial_state_def)
  then have ts: "tables_sized example_index (main_registered False)"
    by (simp add: tables_sized_def example_index_def)
  have me: "1 \<in> thread_id ` set (scan_list (main_registered False))"
    by (simp add: scan_list_def main_registered_explicit initial_state_def scanned_def
        KNOWN_FINISHED_def zero_thread_def)
  have ne: "\<forall>h k. captured_at 0x4000 h k \<noteq> Thread_exited"
    by (simp add: captured_at_def)
  from m g have sl: "scan_list s
           = [zero_thread\<lparr>handle := 11, last_stack_min := ADDR_LIMIT,
                                stack_end := 0x8000, thread_id := 1\<rparr>,
              zero_thread\<lparr>handle := 12, last_stack_min := ADDR_LIMIT,
                           stack_end := 0x4FF0, thread_id := 2, context_sp := 0x4000,
                           flags := {IS_SUSPENDED}\<rparr>]"
    by (simp add: scan_list_def scanned_def KNOWN_FINISHED_def zero_thread_def)
  from GC_push_all_stacks_total[OF example_env_sane, of 1 s initial_scan_state] ts me ne at r
  have "\<exists>s1 sc1. GC_push_all_stacks example_env 1 s initial_scan_state = Some (Inr (s1, sc1))
                      \<and> GC_total_stacksize s1
                          = sum_list (map (stack_size_seen example_env 1) (scan_list s))"
    by blast
  then obtain s1 sc1 where
    p: "GC_push_all_stacks example_env 1 s initial_scan_state = Some (Inr (s1, sc1))"
       "GC_total_stacksize s1 = sum_list (map (stack_size_seen example_env 1) (scan_list s))"
    by blast
  from p(2) sl have tot: "GC_total_stacksize s1 = (0x8000 - 0x4F00) + (0x4FF0 - 0x4000)"
    by (simp add: stack_size_seen_def observed_sp_def read_context_sp_def zero_thread_def
        example_env_def)
  from sl have ids: "map thread_id (scan_list s) = [1, 2]" by (simp add: zero_thread_def)
  from at r ids p(1) tot have
    "attach_all example_index [(Some 12, \<lparr>mem_base = 0x4FF0\<rparr>, 2)] (main_registered False)
          = Inr (two_threads False)
        \<and> GC_stop_world False example_index (captured_at 0x4000) 1 (two_threads False) = Inr s
        \<and> map thread_id (scan_list s) = [1, 2]
        \<and> GC_push_all_stacks example_env 1 s initial_scan_state = Some (Inr (s1, sc1))
        \<and> GC_total_stacksize s1 = (0x8000 - 0x4F00) + (0x4FF0 - 0x4000)"
    by (intro conjI)
  then have "\<exists>s s1 sc1.
        attach_all example_index [(Some 12, \<lparr>mem_base = 0x4FF0\<rparr>, 2)] (main_registered False)
          = Inr (two_threads False)
        \<and> GC_stop_world False example_index (captured_at 0x4000) 1 (two_threads False) = Inr s
        \<and> map thread_id (scan_list s) = [1, 2]
        \<and> GC_push_all_stacks example_env 1 s initial_scan_state = Some (Inr (s1, sc1))
        \<and> GC_total_stacksize s1 = (0x8000 - 0x4F00) + (0x4FF0 - 0x4000)"
    by (intro exI)
  with ts example_env_sane show ?thesis by (intro conjI)
qed

text \<open>
  Without the two restrictions the statement fails. In the hash table a FINISHED record is
  still registered, its stack range is set and a stack pointer is observed for it, but it
  is neither counted nor summed. In the thread table a thread that registered and that the
  stop finds exited loses its slot: after the stop only the initiator is found.
\<close>

theorem GC_push_all_stacks_total_counterexample:
  "(\<exists>p s1 sc1.
      p \<in> set (registry one_finished) \<and> thread_id p = 2 \<and> stack_end p = 0x4FF0
      \<and> observed_sp example_env 1 p = Some 0x4000
      \<and> GC_push_all_stacks example_env 1 one_finished initial_scan_state = Some (Inr (s1, sc1))
      \<and> GC_total_stacksize s1 = 0x8000 - 0x4F00
      \<and> last (events sc1) = Log_pushed_stacks 1)
   \<and> (\<exists>s s1 sc1.
      attach_all example_index [(Some 12, \<lparr>mem_base = 0x4FF0\<rparr>, 2)] (main_registered True)
        = Inr (two_threads True)
      \<and> GC_stop_world False example_index (\<lambda>h k. Thread_exited) 1 (two_threads True) = Inr s
      \<and> map thread_id (scan_list s) = [1]
      \<and> GC_push_all_stacks example_env 1 s initial_scan_state = Some (Inr (s1, sc1))
      \<and> last (events sc1) = Log_pushed_stacks 1)"
proof -
  let ?p = "zero_thread\<lparr>handle := 12, last_stack_min := ADDR_LIMIT,
                                    stack_end := 0x4FF0, thread_id := 2,
                                    context_sp := 0x4000, flags := {FINISHED}\<rparr>"
  have p: "?p \<in> set (registry one_finished)" "thread_id ?p = 2" "stack_end ?p = 0x4FF0"
    "observed_sp example_env 1 ?p = Some 0x4000"
    by (simp_all add: registry_def one_finished_def initial_state_def observed_sp_def
        read_context_sp_def zero_thread_def example_env_def)
  have sl: "scan_list one_finished
       = [zero_thread\<lparr>handle := 11, last_stack_min := ADDR_LIMIT,
                                        stack_end := 0x8000, thread_id := 1\<rparr>]"
    by (simp add: scan_list_def one_finished_def initial_state_def scanned_def
        KNOWN_FINISHED_def zero_thread_def)
  then have "1 \<in> thread_id ` set (scan_list one_finished) \<or> GC_in_thread_creation one_finished"
    by (simp add: zero_thread_def)
  from push_all_stacks_return[OF example_env_sane this, of initial_scan_state]
  obtain s1 sc1 where
    "GC_push_all_stacks example_env 1 one_finished initial_scan_state = Some (Inr (s1, sc1))"
    "GC_total_stacksize s1 = sum_list (map (stack_size_seen example_env 1) (scan_list one_finished))"
    "last (events sc1) = Log_pushed_stacks (length (scan_list one_finished))"
    by blast
  with sl have q:
    "GC_push_all_stacks example_env 1 one_finished initial_scan_state = Some (Inr (s1, sc1))"
    "GC_total_stacksize s1 = 0x8000 - 0x4F00"
    "last (events sc1) = Log_pushed_stacks 1"
    by (simp_all add: stack_size_seen_def observed_sp_def zero_thread_def example_env_def)
  from p q have "?p \<in> set (registry one_finished) \<and> thread_id ?p = 2 \<and> stack_end ?p = 0x4FF0
      \<and> observed_sp example_env 1 ?p = Some 0x4000
      \<and> GC_push_all_stacks example_env 1 one_finished initial_scan_state = Some (Inr (s1, sc1))
      \<and> GC_total_stacksize s1 = 0x8000 - 0x4F00
      \<and> last (events sc1) = Log_pushed_stacks 1"
    by (intro conjI)
  then have first: "\<exists>p s1 sc1.
      p \<in> set (registry one_finished) \<and> thread_id p = 2 \<and> stack_end p = 0x4FF0
      \<and> observed_sp example_env 1 p = Some 0x4000
      \<and> GC_push_all_stacks example_env 1 one_finished initial_scan_state = Some (Inr (s1, sc1))
      \<and> GC_total_stacksize s1 = 0x8000 - 0x4F00
      \<and> last (events sc1) = Log_pushed_stacks 1"
    by (intro exI)
  let ?s = "(two_threads True)
         \<lparr>GC_please_stop := True,
          dll_thread_table :=
            (zero_thread\<lparr>in_use := True, handle := 11, last_stack_min := ADDR_LIMIT,
                      stack_end := 0x8000, thread_id := 1\<rparr>)
            # (zero_thread\<lparr>handle := 12, last_stack_min := ADDR_LIMIT\<rparr>)
            # zero_thread # replicate 509 zero_thread,
          os := \<lparr>suspend_count = (\<lambda>h. 0), closed_handles = [12]\<rparr>\<rparr>"
  have sl2: "scan_list ?s
       = [zero_thread\<lparr>in_use := True, handle := 11, last_stack_min := ADDR_LIMIT,
                      stack_end := 0x8000, thread_id := 1\<rparr>]"
    by (simp add: scan_list_def two_threads_dll initial_state_def scanned_def
        GC_get_max_thread_index_def MAX_THREADS_def zero_thread_def)
  then have "1 \<in> thread_id ` set (scan_list ?s) \<or> GC_in_thread_creation ?s"
    by (simp add: zero_thread_def)
  from push_all_stacks_return[OF example_env_sane this, of initial_scan_state]
  obtain s2 sc2 where
    "GC_push_all_stacks example_env 1 ?s initial_scan_state = Some (Inr (s2, sc2))"
    "last (events sc2) = Log_pushed_stacks (length (scan_list ?s))"
    by blast
  with sl2 have r:
    "GC_push_all_stacks example_env 1 ?s initial_scan_state = Some (Inr (s2, sc2))"
    "last (events sc2) = Log_pushed_stacks 1"
    "map thread_id (scan_list ?s) = [1]"
    by (simp_all add: zero_thread_def)
  from attach_second_thread[of True] two_threads_exited r have
    "attach_all example_index [(Some 12, \<lparr>mem_base = 0x4FF0\<rparr>, 2)] (main_registered True)
        = Inr (two_threads True)
      \<and> GC_stop_world False example_index (\<lambda>h k. Thread_exited) 1 (two_threads True) = Inr ?s
      \<and> map thread_id (scan_list ?s) = [1]
      \<and> GC_push_all_stacks example_env 1 ?s initial_scan_state = Some (Inr (s2, sc2))
      \<and> last (events sc2) = Log_pushed_stacks 1"
    by (intro conjI)
  then have second: "\<exists>s s1 sc1.
      attach_all example_index [(Some 12, \<lparr>mem_base = 0x4FF0\<rparr>, 2)] (main_registered True)
        = Inr (two_threads True)
      \<and> GC_stop_world False example_index (\<lambda>h k. Thread_exited) 1 (two_threads True) = Inr s
      \<and> map thread_id (scan_list s) = [1]
      \<and> GC_push_all_stacks example_env 1 s initial_scan_state = Some (Inr (s1, sc1))
      \<and> last (events sc1) = Log_pushed_stacks 1"
    by (intro exI)
  from first second show ?thesis by (intro conjI)
qed


subsection \<open>Stopping and starting the world\<close>

lemma suspend_loop_outcome:
  "suspend_loop att h r st = Inr (e, st')
     \<Longrightarrow> st' = (case e of Exit_thread_gone \<Rightarrow> st | Exit_captured c \<Rightarrow> SuspendThread h st)
         \<and> suspend_loop att h r st0
             = Inr (e, case e of Exit_thread_gone \<Rightarrow> st0 | Exit_captured c \<Rightarrow> SuspendThread h st0)"
proof (induction att h r st rule: suspend_loop.induct)
  case (1 att h r st)
  show ?case
  proof (cases "att r")
    case Thread_exited
    with "1.prems" show ?thesis by (auto simp: suspend_loop_exited)
  next
    case Suspend_failed
    then have tr: "transient (att r)" by (simp add: transient_def)
    show ?thesis
    proof (cases "Suc r \<ge> MAX_SUSPEND_THREAD_RETRIES")
      case True
      with tr "1.prems" show ?thesis by (simp add: suspend_loop_exhausted)
    next
      case False
      then have lt: "Suc r < MAX_SUSPEND_THREAD_RETRIES" by simp
      with tr "1.prems" have "suspend_loop att h (Suc r) st = Inr (e, st')"
        by (simp add: suspend_loop_retry)
      from "1.IH"(1)[OF Suspend_failed False this] tr lt show ?thesis
        by (simp add: suspend_loop_retry)
    qed
  next
    case (Context_failed resumed)
    show ?thesis
    proof (cases resumed)
      case False
      with Context_failed "1.prems" show ?thesis
        by (simp add: suspend_loop.simps[of att h r st])
    next
      case True
      with Context_failed have tr: "transient (att r)" by (simp add: transient_def)
      show ?thesis
      proof (cases "Suc r \<ge> MAX_SUSPEND_THREAD_RETRIES")
        case True
        with tr "1.prems" show ?thesis by (simp add: suspend_loop_exhausted)
      next
        case False
        then have lt: "Suc r < MAX_SUSPEND_THREAD_RETRIES" by simp
        with tr "1.prems" have
          "suspend_loop att h (Suc r) (ResumeThread h (SuspendThread h st)) = Inr (e, st')"
          by (simp add: suspend_loop_retry)
        from "1.IH"(2)[OF Context_failed _ False this] True tr lt show ?thesis
          by (simp add: suspend_loop_retry cong: loop_exit.case_cong)
      qed
    qed
  next
    case (Context_captured c)
    with "1.prems" show ?thesis by (auto simp: suspend_loop_captured)
  qed
qed

lemma GC_suspend_outcome:
  assumes "GC_suspend pthreads att t st = Inr (out, st')"
  shows "(found_exited att (handle t) \<and> st' = st
            \<and> out = (if pthreads then Kept (t\<lparr>stack_end := 0\<rparr>) else Deleted t))
         \<or> (\<not> found_exited att (handle t) \<and> st' = SuspendThread (handle t) st
            \<and> (\<exists>c. out = Kept (t\<lparr>context_regs := fst (copy_ptr_regs c),
                       context_sp := snd (copy_ptr_regs c),
                       flags := insert IS_SUSPENDED (flags t)\<rparr>)))"
proof (cases "suspend_loop att (handle t) 0 st")
  case (Inl e)
  with assms show ?thesis by (simp add: GC_suspend_def)
next
  case (Inr r)
  obtain e st1 where r: "r = (e, st1)" by (cases r) auto
  note o = suspend_loop_outcome[OF Inr[unfolded r],
      of "\<lparr>suspend_count = (\<lambda>h. 0), closed_handles = []\<rparr>"]
  show ?thesis
  proof (cases e)
    case Exit_thread_gone
    with o have "found_exited att (handle t)" "st1 = st" by (simp_all add: found_exited_def)
    with Inr r Exit_thread_gone assms show ?thesis by (auto simp: GC_suspend_def)
  next
    case (Exit_captured c)
    with o have "\<not> found_exited att (handle t)" "st1 = SuspendThread (handle t) st"
      by (simp_all add: found_exited_def)
    with Inr r Exit_captured assms show ?thesis by (auto simp: GC_suspend_def)
  qed
qed

lemma unflag_same: "IS_SUSPENDED \<notin> flags p \<Longrightarrow> p\<lparr>flags := flags p - {IS_SUSPENDED}\<rparr> = p"
  by simp

lemma stop_dll_slots_flags:
  "stop_dll_slots pthreads att self_id ps st = Inr (ps', st')
   \<Longrightarrow> \<forall>p\<in>set ps. IS_SUSPENDED \<notin> flags p
   \<Longrightarrow> list_all2 (\<lambda>p p'. \<exists>c. p' = p\<lparr>context_regs := fst (copy_ptr_regs c),
                       context_sp := snd (copy_ptr_regs c),
                       flags := insert IS_SUSPENDED (flags p)\<rparr>)
         (filter (\<lambda>p. \<not> found_exited (att (handle p)) (handle p))
            (filter (\<lambda>p. stack_end p \<noteq> 0 \<and> DO_BLOCKING \<notin> flags p \<and> thread_id p \<noteq> self_id) ps))
         (filter (\<lambda>p. IS_SUSPENDED \<in> flags p) ps')
       \<and> (\<forall>h. suspend_count st' h
               = suspend_count st h
                 + length (filter (\<lambda>p. handle p = h) (filter (\<lambda>p. IS_SUSPENDED \<in> flags p) ps')))
       \<and> length ps' = length ps"
proof (induction ps arbitrary: st ps')
  case Nil
  then show ?case by simp
next
  case (Cons p ps)
  from Cons.prems(2) have pre: "\<forall>p\<in>set ps. IS_SUSPENDED \<notin> flags p" and np: "IS_SUSPENDED \<notin> flags p"
    by simp_all
  show ?case
  proof (cases "stack_end p \<noteq> 0 \<and> DO_BLOCKING \<notin> flags p \<and> thread_id p \<noteq> self_id")
    case False
    with Cons.prems(1) obtain qs where
      q: "stop_dll_slots pthreads att self_id ps st = Inr (qs, st')" "ps' = p # qs"
      by (auto split: sum.splits)
    from Cons.IH[OF q(1) pre] q(2) False np show ?thesis by auto
  next
    case True
    with Cons.prems(1) obtain out st1 where
      g: "GC_suspend pthreads (att (handle p)) p st = Inr (out, st1)"
      by (auto split: sum.splits)
    from GC_suspend_outcome[OF g] show ?thesis
    proof (elim disjE conjE exE)
      assume e: "found_exited (att (handle p)) (handle p)" "st1 = st"
        "out = (if pthreads then Kept (p\<lparr>stack_end := 0\<rparr>) else Deleted p)"
      show ?thesis
      proof (cases pthreads)
        case True
        with Cons.prems(1) \<open>stack_end p \<noteq> 0 \<and> DO_BLOCKING \<notin> flags p \<and> thread_id p \<noteq> self_id\<close> g e
        obtain qs where
          q: "stop_dll_slots pthreads att self_id ps st = Inr (qs, st')" "ps' = p\<lparr>stack_end := 0\<rparr> # qs"
          by (auto split: sum.splits)
        from Cons.IH[OF q(1) pre] q(2) e(1) np show ?thesis by auto
      next
        case False
        with Cons.prems(1) \<open>stack_end p \<noteq> 0 \<and> DO_BLOCKING \<notin> flags p \<and> thread_id p \<noteq> self_id\<close> g e
        obtain qs where
          q: "stop_dll_slots pthreads att self_id ps (CloseHandle (handle p) st) = Inr (qs, st')"
             "ps' = clear_dll_slot p # qs"
          by (auto split: sum.splits)
        from Cons.IH[OF q(1) pre] q(2) e(1) np show ?thesis
          by (auto simp: clear_dll_slot_def CloseHandle_def)
      qed
    next
      fix c
      assume e: "\<not> found_exited (att (handle p)) (handle p)" "st1 = SuspendThread (handle p) st"
        "out = Kept (p\<lparr>context_regs := fst (copy_ptr_regs c),
                       context_sp := snd (copy_ptr_regs c),
                       flags := insert IS_SUSPENDED (flags p)\<rparr>)"
      with Cons.prems(1) True g obtain qs where
        q: "stop_dll_slots pthreads att self_id ps (SuspendThread (handle p) st) = Inr (qs, st')"
           "ps' = p\<lparr>context_regs := fst (copy_ptr_regs c),
                       context_sp := snd (copy_ptr_regs c),
                       flags := insert IS_SUSPENDED (flags p)\<rparr> # qs"
        by (auto split: sum.splits)
      from Cons.IH[OF q(1) pre] q(2) e(1) True show ?thesis
        by (auto simp: SuspendThread_def)
    qed
  qed
qed

lemma stop_bucket_flags:
  "stop_bucket pthreads ix att self_id b ps st = Inr (ps', st')
   \<Longrightarrow> \<forall>p\<in>set ps. IS_SUSPENDED \<notin> flags p
   \<Longrightarrow> list_all2 (\<lambda>p p'. \<exists>c. p' = p\<lparr>context_regs := fst (copy_ptr_regs c),
                       context_sp := snd (copy_ptr_regs c),
                       flags := insert IS_SUSPENDED (flags p)\<rparr>)
         (filter (\<lambda>p. \<not> found_exited (att (handle p)) (handle p))
            (filter (\<lambda>p. stack_end p \<noteq> 0 \<and> thread_id p \<noteq> self_id
                        \<and> FINISHED \<notin> flags p \<and> DO_BLOCKING \<notin> flags p) ps))
         (filter (\<lambda>p. IS_SUSPENDED \<in> flags p) ps')
       \<and> (\<forall>h. suspend_count st' h
               = suspend_count st h
                 + length (filter (\<lambda>p. handle p = h) (filter (\<lambda>p. IS_SUSPENDED \<in> flags p) ps')))"
proof (induction ps arbitrary: st ps')
  case Nil
  then show ?case by simp
next
  case (Cons p ps)
  from Cons.prems(2) have pre: "\<forall>p\<in>set ps. IS_SUSPENDED \<notin> flags p" and np: "IS_SUSPENDED \<notin> flags p"
    by simp_all
  show ?case
  proof (cases "stack_end p \<noteq> 0 \<and> thread_id p \<noteq> self_id
                        \<and> FINISHED \<notin> flags p \<and> DO_BLOCKING \<notin> flags p")
    case False
    with Cons.prems(1) obtain qs where
      q: "stop_bucket pthreads ix att self_id b ps st = Inr (qs, st')" "ps' = p # qs"
      by (auto split: sum.splits)
    from Cons.IH[OF q(1) pre] q(2) False np show ?thesis by auto
  next
    case True
    note cand = this
    with Cons.prems(1) obtain out st1 where
      g: "GC_suspend pthreads (att (handle p)) p st = Inr (out, st1)"
      by (auto split: sum.splits)
    from GC_suspend_outcome[OF g] show ?thesis
    proof (elim disjE conjE exE)
      assume e: "found_exited (att (handle p)) (handle p)" "st1 = st"
        "out = (if pthreads then Kept (p\<lparr>stack_end := 0\<rparr>) else Deleted p)"
      show ?thesis
      proof (cases pthreads)
        case True
        with Cons.prems(1) cand g e
        obtain qs where
          q: "stop_bucket pthreads ix att self_id b ps st = Inr (qs, st')" "ps' = p\<lparr>stack_end := 0\<rparr> # qs"
          by (auto split: sum.splits)
        from Cons.IH[OF q(1) pre] q(2) e(1) np cand show ?thesis by auto
      next
        case False
        with Cons.prems(1) cand g e
        have q: "stop_bucket pthreads ix att self_id b ps (CloseHandle (handle p) st) = Inr (ps', st')"
          by (auto split: sum.splits if_splits)
        from Cons.IH[OF q pre] e(1) np cand show ?thesis
          by (auto simp: CloseHandle_def)
      qed
    next
      fix c
      assume e: "\<not> found_exited (att (handle p)) (handle p)" "st1 = SuspendThread (handle p) st"
        "out = Kept (p\<lparr>context_regs := fst (copy_ptr_regs c),
                       context_sp := snd (copy_ptr_regs c),
                       flags := insert IS_SUSPENDED (flags p)\<rparr>)"
      with Cons.prems(1) cand g obtain qs where
        q: "stop_bucket pthreads ix att self_id b ps (SuspendThread (handle p) st) = Inr (qs, st')"
           "ps' = p\<lparr>context_regs := fst (copy_ptr_regs c),
                       context_sp := snd (copy_ptr_regs c),
                       flags := insert IS_SUSPENDED (flags p)\<rparr> # qs"
        by (auto split: sum.splits)
      from Cons.IH[OF q(1) pre] q(2) e(1) cand show ?thesis
        by (auto simp: SuspendThread_def)
    qed
  qed
qed

lemma stop_buckets_flags:
  "stop_buckets pthreads ix att self_id b cs st = Inr (cs', st')
   \<Longrightarrow> \<forall>p\<in>set (concat cs). IS_SUSPENDED \<notin> flags p
   \<Longrightarrow> list_all2 (\<lambda>p p'. \<exists>c. p' = p\<lparr>context_regs := fst (copy_ptr_regs c),
                       context_sp := snd (copy_ptr_regs c),
                       flags := insert IS_SUSPENDED (flags p)\<rparr>)
         (filter (\<lambda>p. \<not> found_exited (att (handle p)) (handle p))
            (filter (\<lambda>p. stack_end p \<noteq> 0 \<and> thread_id p \<noteq> self_id
                        \<and> FINISHED \<notin> flags p \<and> DO_BLOCKING \<notin> flags p) (concat cs)))
         (filter (\<lambda>p. IS_SUSPENDED \<in> flags p) (concat cs'))
       \<and> (\<forall>h. suspend_count st' h
               = suspend_count st h
                 + length (filter (\<lambda>p. handle p = h)
                             (filter (\<lambda>p. IS_SUSPENDED \<in> flags p) (concat cs'))))"
proof (induction cs arbitrary: b st cs')
  case Nil
  then show ?case by simp
next
  case (Cons c cs)
  from Cons.prems(1) obtain c' st1 qs where
    q: "stop_bucket pthreads ix att self_id b c st = Inr (c', st1)"
       "stop_buckets pthreads ix att self_id (Suc b) cs st1 = Inr (qs, st')" "cs' = c' # qs"
    by (auto split: sum.splits)
  from Cons.prems(2) have p1: "\<forall>p\<in>set c. IS_SUSPENDED \<notin> flags p"
    and p2: "\<forall>p\<in>set (concat cs). IS_SUSPENDED \<notin> flags p" by simp_all
  from stop_bucket_flags[OF q(1) p1] Cons.IH[OF q(2) p2] q(3) show ?case
    by (simp add: list_all2_appendI)
qed

lemma start_threads_result:
  "start_threads resumes ps st = Inr (ps', st')
   \<Longrightarrow> ps' = map (\<lambda>p. p\<lparr>flags := flags p - {IS_SUSPENDED}\<rparr>) ps
       \<and> (\<forall>h. suspend_count st' h
               = suspend_count st h
                 - length (filter (\<lambda>p. handle p = h) (filter (\<lambda>p. IS_SUSPENDED \<in> flags p) ps)))
       \<and> closed_handles st' = closed_handles st"
proof (induction ps arbitrary: st ps')
  case Nil
  then show ?case by simp
next
  case (Cons p ps)
  show ?case
  proof (cases "IS_SUSPENDED \<in> flags p")
    case False
    with Cons.prems obtain qs where
      q: "start_threads resumes ps st = Inr (qs, st')" "ps' = p # qs"
      by (auto split: sum.splits)
    from Cons.IH[OF q(1)] q(2) False show ?thesis by simp
  next
    case True
    with Cons.prems obtain qs where
      q: "start_threads resumes ps (ResumeThread (handle p) st) = Inr (qs, st')"
         "ps' = p\<lparr>flags := flags p - {IS_SUSPENDED}\<rparr> # qs"
      by (auto split: sum.splits if_splits)
    from Cons.IH[OF q(1)] q(2) True show ?thesis by (auto simp: ResumeThread_def)
  qed
qed

lemma start_buckets_result:
  "start_buckets resumes cs st = Inr (cs', st')
   \<Longrightarrow> concat cs' = map (\<lambda>p. p\<lparr>flags := flags p - {IS_SUSPENDED}\<rparr>) (concat cs)
       \<and> (\<forall>h. suspend_count st' h
               = suspend_count st h
                 - length (filter (\<lambda>p. handle p = h)
                             (filter (\<lambda>p. IS_SUSPENDED \<in> flags p) (concat cs))))
       \<and> closed_handles st' = closed_handles st"
proof (induction cs arbitrary: st cs')
  case Nil
  then show ?case by simp
next
  case (Cons c cs)
  from Cons.prems obtain c' st1 qs where
    q: "start_threads resumes c st = Inr (c', st1)"
       "start_buckets resumes cs st1 = Inr (qs, st')" "cs' = c' # qs"
    by (auto split: sum.splits)
  from start_threads_result[OF q(1)] Cons.IH[OF q(2)] q(3) show ?case by simp
qed


lemma take_drop_replaced:
  "length ps = length (take n tbl)
     \<Longrightarrow> take n (ps @ drop n tbl) = ps \<and> drop n (ps @ drop n tbl) = drop n tbl"
  by (auto simp: min_def)

lemma unflag_all_same:
  "\<forall>p\<in>set ps. IS_SUSPENDED \<notin> flags p \<Longrightarrow> map (\<lambda>p. p\<lparr>flags := flags p - {IS_SUSPENDED}\<rparr>) ps = ps"
  by (induction ps) simp_all

lemma stop_start_dll:
  assumes dll: "GC_win32_dll_threads s"
      and pre: "suspended_records s = []"
      and stop: "GC_stop_world pthreads ix att self_id s = Inr s1"
      and start: "GC_start_world resumes s1 = Inr s2"
  shows "list_all2 (\<lambda>p p'. \<exists>c. p' = p\<lparr>context_regs := fst (copy_ptr_regs c),
                       context_sp := snd (copy_ptr_regs c),
                       flags := insert IS_SUSPENDED (flags p)\<rparr>)
           (filter (\<lambda>p. \<not> found_exited (att (handle p)) (handle p)) (stop_candidates self_id s))
           (suspended_records s1)
         \<and> (\<forall>h. suspend_count (os s1) h
                 = suspend_count (os s) h
                   + length (filter (\<lambda>p. handle p = h) (suspended_records s1)))
         \<and> registry s2 = map (\<lambda>p. p\<lparr>flags := flags p - {IS_SUSPENDED}\<rparr>) (registry s1)
         \<and> (\<forall>h. suspend_count (os s2) h
                 = suspend_count (os s1) h
                   - length (filter (\<lambda>p. handle p = h) (suspended_records s1)))"
proof -
  let ?n = "nat (GC_get_max_thread_index s + 1)"
  let ?tbl = "dll_thread_table s"
  let ?fl = "\<lambda>p. IS_SUSPENDED \<in> flags p"
  from pre dll have un: "\<forall>p\<in>set ?tbl. IS_SUSPENDED \<notin> flags p"
    by (simp add: suspended_records_def registry_def filter_empty_conv)
  then have un1: "\<forall>p\<in>set (take ?n ?tbl). IS_SUSPENDED \<notin> flags p"
    by (meson in_set_takeD)
  from un have un2: "\<forall>p\<in>set (drop ?n ?tbl). IS_SUSPENDED \<notin> flags p"
    by (meson in_set_dropD)
  from stop dll obtain ps st where
    q: "stop_dll_slots pthreads att self_id (take ?n ?tbl) (os s) = Inr (ps, st)"
       "s1 = s\<lparr>GC_please_stop := True, GC_attached_thread := False,
               dll_thread_table := ps @ drop ?n ?tbl, os := st\<rparr>"
    by (auto simp: GC_stop_world_def Let_def get_max_updates split: sum.splits)
  note k = stop_dll_slots_flags[OF q(1) un1]
  from k have len: "length ps = length (take ?n ?tbl)" by simp
  note td = take_drop_replaced[OF len]
  from q(2) have mx: "GC_get_max_thread_index s1 = GC_get_max_thread_index s"
    by (simp add: get_max_updates)
  from un2 have f2: "filter ?fl (drop ?n ?tbl) = []" by (simp add: filter_empty_conv)
  from q(2) dll f2 have sr: "suspended_records s1 = filter ?fl ps"
    by (simp add: suspended_records_def registry_def)
  from dll have sc: "stop_candidates self_id s
      = filter (\<lambda>p. stack_end p \<noteq> 0 \<and> DO_BLOCKING \<notin> flags p \<and> thread_id p \<noteq> self_id) (take ?n ?tbl)"
    by (simp add: stop_candidates_def)
  from q(2) have os1: "os s1 = st" by simp
  from q(2) dll have dll1: "GC_win32_dll_threads s1" by simp
  from q(2) have tb1: "dll_thread_table s1 = ps @ drop ?n ?tbl" by simp
  from start dll1 mx tb1 td os1 obtain ps' st2 where
    r: "start_threads resumes ps st = Inr (ps', st2)"
       "dll_thread_table s2 = ps' @ drop ?n ?tbl" "os s2 = st2" "GC_win32_dll_threads s2"
    by (auto simp: GC_start_world_def Let_def split: sum.splits)
  note m = start_threads_result[OF r(1)]
  from m r(2,4) tb1 dll1 unflag_all_same[OF un2] have
    "registry s2 = map (\<lambda>p. p\<lparr>flags := flags p - {IS_SUSPENDED}\<rparr>) (registry s1)"
    by (simp add: registry_def)
  with k m sr sc os1 r(3) show ?thesis by simp
qed

lemma stop_start_explicit:
  assumes dll: "\<not> GC_win32_dll_threads s"
      and pre: "suspended_records s = []"
      and stop: "GC_stop_world pthreads ix att self_id s = Inr s1"
      and start: "GC_start_world resumes s1 = Inr s2"
  shows "list_all2 (\<lambda>p p'. \<exists>c. p' = p\<lparr>context_regs := fst (copy_ptr_regs c),
                       context_sp := snd (copy_ptr_regs c),
                       flags := insert IS_SUSPENDED (flags p)\<rparr>)
           (filter (\<lambda>p. \<not> found_exited (att (handle p)) (handle p)) (stop_candidates self_id s))
           (suspended_records s1)
         \<and> (\<forall>h. suspend_count (os s1) h
                 = suspend_count (os s) h
                   + length (filter (\<lambda>p. handle p = h) (suspended_records s1)))
         \<and> registry s2 = map (\<lambda>p. p\<lparr>flags := flags p - {IS_SUSPENDED}\<rparr>) (registry s1)
         \<and> (\<forall>h. suspend_count (os s2) h
                 = suspend_count (os s1) h
                   - length (filter (\<lambda>p. handle p = h) (suspended_records s1)))"
proof -
  let ?fl = "\<lambda>p. IS_SUSPENDED \<in> flags p"
  from pre dll have un: "\<forall>p\<in>set (concat (GC_threads s)). IS_SUSPENDED \<notin> flags p"
    by (simp add: suspended_records_def registry_def filter_empty_conv)
  from stop dll obtain cs st where
    q: "stop_buckets pthreads ix att self_id 0 (GC_threads s) (os s) = Inr (cs, st)"
       "s1 = s\<lparr>GC_please_stop := True, GC_threads := cs, os := st\<rparr>"
    by (auto simp: GC_stop_world_def Let_def split: sum.splits)
  note k = stop_buckets_flags[OF q(1) un]
  from q(2) dll have sr: "suspended_records s1 = filter ?fl (concat cs)"
    by (simp add: suspended_records_def registry_def)
  from dll have sc: "stop_candidates self_id s
      = filter (\<lambda>p. stack_end p \<noteq> 0 \<and> thread_id p \<noteq> self_id
                        \<and> FINISHED \<notin> flags p \<and> DO_BLOCKING \<notin> flags p) (concat (GC_threads s))"
    by (simp add: stop_candidates_def)
  from q(2) have os1: "os s1 = st" by simp
  from q(2) dll have dll1: "\<not> GC_win32_dll_threads s1" by simp
  from q(2) have tb1: "GC_threads s1 = cs" by simp
  from start dll1 tb1 os1 obtain cs' st2 where
    r: "start_buckets resumes cs st = Inr (cs', st2)"
       "GC_threads s2 = cs'" "os s2 = st2" "\<not> GC_win32_dll_threads s2"
    by (auto simp: GC_start_world_def Let_def split: sum.splits)
  note m = start_buckets_result[OF r(1)]
  from m r(2,4) tb1 dll1 have
    "registry s2 = map (\<lambda>p. p\<lparr>flags := flags p - {IS_SUSPENDED}\<rparr>) (registry s1)"
    by (simp add: registry_def)
  with k m sr sc os1 r(3) show ?thesis by simp
qed

text \<open>
  C1, as amended. A stop of the world followed by a start of the world, both returning,
  from a state where no record has the IS\_SUSPENDED bit, is a round trip on the
  suspension state of the registry. The records \<open>GC_stop_world\<close> flags are, in order,
  those of the registered threads other than the caller whose stack range is set, which
  are not in a blocking bracket (nor FINISHED, in the hash table) and which the system
  does not report as exited: each of them is suspended, its context is saved and its
  IS\_SUSPENDED bit is set, and the suspend count of each handle goes up by one for each
  such record. \<open>GC_start_world\<close> resumes each flagged record once (the suspend count goes
  down by one for each) and clears the bit, changing nothing else in the registry. After
  it every suspend count is what it was before the stop, and no record of the registry,
  in either variant, has the bit.
\<close>

theorem stop_start_round_trip:
  assumes pre: "suspended_records s = []"
      and stop: "GC_stop_world pthreads THREAD_TABLE_INDEX att self_id s = Inr s1"
      and start: "GC_start_world resumes s1 = Inr s2"
  shows "list_all2 (\<lambda>p p'. \<exists>c. p' = p\<lparr>context_regs := fst (copy_ptr_regs c),
                       context_sp := snd (copy_ptr_regs c),
                       flags := insert IS_SUSPENDED (flags p)\<rparr>)
           (filter (\<lambda>p. \<not> found_exited (att (handle p)) (handle p)) (stop_candidates self_id s))
           (suspended_records s1)
         \<and> (\<forall>h. suspend_count (os s1) h
                 = suspend_count (os s) h
                   + length (filter (\<lambda>p. handle p = h) (suspended_records s1)))
         \<and> registry s2 = map (\<lambda>p. p\<lparr>flags := flags p - {IS_SUSPENDED}\<rparr>) (registry s1)
         \<and> (\<forall>h. suspend_count (os s2) h
                 = suspend_count (os s1) h
                   - length (filter (\<lambda>p. handle p = h) (suspended_records s1)))
         \<and> suspend_count (os s2) = suspend_count (os s)
         \<and> suspended_records s2 = []"
proof -
  have a: "list_all2 (\<lambda>p p'. \<exists>c. p' = p\<lparr>context_regs := fst (copy_ptr_regs c),
                       context_sp := snd (copy_ptr_regs c),
                       flags := insert IS_SUSPENDED (flags p)\<rparr>)
           (filter (\<lambda>p. \<not> found_exited (att (handle p)) (handle p)) (stop_candidates self_id s))
           (suspended_records s1)
         \<and> (\<forall>h. suspend_count (os s1) h
                 = suspend_count (os s) h
                   + length (filter (\<lambda>p. handle p = h) (suspended_records s1)))
         \<and> registry s2 = map (\<lambda>p. p\<lparr>flags := flags p - {IS_SUSPENDED}\<rparr>) (registry s1)
         \<and> (\<forall>h. suspend_count (os s2) h
                 = suspend_count (os s1) h
                   - length (filter (\<lambda>p. handle p = h) (suspended_records s1)))"
    using stop_start_dll[OF _ pre stop start] stop_start_explicit[OF _ pre stop start]
    by (cases "GC_win32_dll_threads s") blast+
  then have a1: "list_all2 (\<lambda>p p'. \<exists>c. p' = p\<lparr>context_regs := fst (copy_ptr_regs c),
                       context_sp := snd (copy_ptr_regs c),
                       flags := insert IS_SUSPENDED (flags p)\<rparr>)
           (filter (\<lambda>p. \<not> found_exited (att (handle p)) (handle p)) (stop_candidates self_id s))
           (suspended_records s1)"
    and a2: "\<forall>h. suspend_count (os s1) h
                 = suspend_count (os s) h
                   + length (filter (\<lambda>p. handle p = h) (suspended_records s1))"
    and a3: "registry s2 = map (\<lambda>p. p\<lparr>flags := flags p - {IS_SUSPENDED}\<rparr>) (registry s1)"
    and a4: "\<forall>h. suspend_count (os s2) h
                 = suspend_count (os s1) h
                   - length (filter (\<lambda>p. handle p = h) (suspended_records s1))"
    by blast+
  have b: "suspend_count (os s2) = suspend_count (os s)"
  proof
    fix h
    from a2 a4 show "suspend_count (os s2) h = suspend_count (os s) h" by simp
  qed
  from a3 have c: "suspended_records s2 = []"
    by (simp add: suspended_records_def filter_empty_conv)
  from a1 a2 a3 a4 b c show ?thesis by (intro conjI)
qed


theorem stop_start_round_trip_example:
  "suspended_records (two_threads False) = []
   \<and> (\<exists>s1 s2. GC_stop_world False example_index (captured_at 0x4000) 1 (two_threads False) = Inr s1
        \<and> GC_start_world (\<lambda>h. True) s1 = Inr s2
        \<and> map thread_id (suspended_records s1) = [2]
        \<and> suspend_count (os s1) 12 = 1
        \<and> suspend_count (os s2) 12 = 0
        \<and> suspended_records s2 = [])"
proof -
  have pre: "suspended_records (two_threads False) = []"
    by (simp add: two_threads_explicit suspended_records_def registry_def initial_state_def
        zero_thread_def)
  have c0: "suspend_count (os (two_threads False)) 12 = 0"
    by (simp add: two_threads_explicit initial_state_def)
  from two_threads_stopped obtain s1 where
    stop: "GC_stop_world False example_index (captured_at 0x4000) 1 (two_threads False) = Inr s1"
    and m: "\<not> GC_win32_dll_threads s1"
    and g: "GC_threads s1
           = [[], [zero_thread\<lparr>handle := 11, last_stack_min := ADDR_LIMIT,
                                stack_end := 0x8000, thread_id := 1\<rparr>],
              [zero_thread\<lparr>handle := 12, last_stack_min := ADDR_LIMIT,
                           stack_end := 0x4FF0, thread_id := 2, context_sp := 0x4000,
                           flags := {IS_SUSPENDED}\<rparr>], []]"
    by blast
  from m g have "\<exists>s2. GC_start_world (\<lambda>h. True) s1 = Inr s2"
    by (simp add: GC_start_world_def zero_thread_def)
  then obtain s2 where start: "GC_start_world (\<lambda>h. True) s1 = Inr s2" by blast
  from m g have sr: "suspended_records s1
       = [zero_thread\<lparr>handle := 12, last_stack_min := ADDR_LIMIT,
                           stack_end := 0x4FF0, thread_id := 2, context_sp := 0x4000,
                           flags := {IS_SUSPENDED}\<rparr>]"
    by (simp add: suspended_records_def registry_def zero_thread_def)
  note t = stop_start_round_trip[OF pre stop start]
  from t have "suspend_count (os s1) 12
                 = suspend_count (os (two_threads False)) 12
                   + length (filter (\<lambda>p. handle p = 12) (suspended_records s1))"
    by blast
  with sr c0 have c1: "suspend_count (os s1) 12 = 1" by (simp add: zero_thread_def)
  from t have "suspend_count (os s2) = suspend_count (os (two_threads False))" by blast
  with c0 have c2: "suspend_count (os s2) 12 = 0" by simp
  from t have e: "suspended_records s2 = []" by blast
  from sr have ids: "map thread_id (suspended_records s1) = [2]" by (simp add: zero_thread_def)
  from stop start ids c1 c2 e have
    "GC_stop_world False example_index (captured_at 0x4000) 1 (two_threads False) = Inr s1
        \<and> GC_start_world (\<lambda>h. True) s1 = Inr s2
        \<and> map thread_id (suspended_records s1) = [2]
        \<and> suspend_count (os s1) 12 = 1
        \<and> suspend_count (os s2) 12 = 0
        \<and> suspended_records s2 = []"
    by (intro conjI)
  then have "\<exists>s1 s2. GC_stop_world False example_index (captured_at 0x4000) 1 (two_threads False) = Inr s1
        \<and> GC_start_world (\<lambda>h. True) s1 = Inr s2
        \<and> map thread_id (suspended_records s1) = [2]
        \<and> suspend_count (os s1) 12 = 1
        \<and> suspend_count (os s2) 12 = 0
        \<and> suspended_records s2 = []"
    by (intro exI)
  with pre show ?thesis by (intro conjI)
qed

text \<open>
  The claim as stated fails for a registered thread that the system reports as exited:
  \<open>GC_suspend\<close> does not suspend it and does not set its bit, but deletes its record (or,
  with GC\_PTHREADS, clears its \<open>stack_end\<close>). In discovery mode, thread 2 is registered
  with its stack range set, is not the caller and is not blocked; when the caller 1 stops
  the world and GetExitCodeThread reports thread 2 as gone, no record is flagged, no
  thread is suspended, the handle of thread 2 is closed and its slot is freed; the start
  of the world then resumes nothing.
\<close>

theorem stop_start_round_trip_counterexample:
  "\<exists>s1 s2.
     in_use (dll_thread_table (two_threads True) ! 1)
     \<and> thread_id (dll_thread_table (two_threads True) ! 1) = 2
     \<and> handle (dll_thread_table (two_threads True) ! 1) = 12
     \<and> stack_end (dll_thread_table (two_threads True) ! 1) = 0x4FF0
     \<and> DO_BLOCKING \<notin> flags (dll_thread_table (two_threads True) ! 1)
     \<and> suspended_records (two_threads True) = []
     \<and> GC_stop_world False example_index (\<lambda>h k. Thread_exited) 1 (two_threads True) = Inr s1
     \<and> suspended_records s1 = []
     \<and> suspend_count (os s1) 12 = 0
     \<and> closed_handles (os s1) = [12]
     \<and> \<not> in_use (dll_thread_table s1 ! 1)
     \<and> GC_start_world (\<lambda>h. True) s1 = Inr s2
     \<and> os s2 = os s1"
  by (simp add: two_threads_exited)
     (simp add: two_threads_dll initial_state_def zero_thread_def suspended_records_def
        registry_def GC_start_world_def Let_def GC_get_max_thread_index_def MAX_THREADS_def)

end
